theory Spec2Isabelle
  imports Main "HOL-Library.Word" "HOL-Library.Sublist"
begin

section \<open>Data model of the Winlogbeat beater\<close>

text \<open>
  The embedding follows \<^verbatim>\<open>winlogbeat/beater/winlogbeat.go\<close>. The collaborators of the
  beater (the event log API, the publisher client, the checkpoint store, the done channel)
  are not part of that file; what they answer is an input of the model, and what the
  beater asks of them is recorded as a list of actions.
\<close>

type_synonym uint64 = "64 word"
type_synonym int64 = "64 word"

text \<open>A \<^verbatim>\<open>time.Time\<close>: an instant (nanoseconds) and the location it is displayed in.\<close>

record Time =
  instant :: int
  location :: string

definition UTC :: "Time \<Rightarrow> Time" where
  "UTC t = t\<lparr>location := ''UTC''\<rparr>"

text \<open>\<^verbatim>\<open>time.Second\<close>, a \<^verbatim>\<open>time.Duration\<close> in nanoseconds.\<close>

definition time_Second :: int where
  "time_Second = 1000000000"

record TimeCreated =
  SystemTime :: Time

text \<open>
  An \<^verbatim>\<open>eventlog.Record\<close>, with the fields the beater reads; the rest of the record is
  the payload \<open>'p\<close>, which \<^verbatim>\<open>ToMapStr\<close> (a parameter \<open>conv\<close> below) converts.
\<close>

record 'p Record =
  RecordID :: uint64
  TimeCreated :: TimeCreated
  payload :: 'p

text \<open>A \<^verbatim>\<open>checkpoint.EventLogState\<close>; its zero value is what a missing map key yields.\<close>

record EventLogState =
  StateName :: string
  RecordNumber :: uint64
  Timestamp :: Time

definition zero_Time :: Time where
  "zero_Time = \<lparr>instant = 0, location = ''UTC''\<rparr>"

definition zero_EventLogState :: EventLogState where
  "zero_EventLogState = \<lparr>StateName = [], RecordNumber = 0, Timestamp = zero_Time\<rparr>"

text \<open>
  An \<^verbatim>\<open>eventlog.EventLog\<close> as the beater sees it: its name, what \<^verbatim>\<open>Open\<close> answers for a
  record number and what \<^verbatim>\<open>Close\<close> answers (\<open>Some err\<close> is a non-nil error).
\<close>

record EventLog =
  Name :: string
  Open :: "uint64 \<Rightarrow> string option"
  Close :: "string option"

text \<open>
  What the environment answers during one pass through the body of the \<^verbatim>\<open>for\<close> loop of
  \<^verbatim>\<open>processEventLog\<close>: whether the receive on \<^verbatim>\<open>eb.done\<close> succeeds (the channel is
  closed), what \<^verbatim>\<open>api.Read()\<close> returns (\<open>Inl\<close> the error) and what
  \<^verbatim>\<open>eb.client.PublishEvents\<close> returns. An answer is only consulted when the pass reaches
  the call.
\<close>

record 'p tick =
  done_closed :: bool
  read_result :: "string + 'p Record list"
  publish_ok :: bool

datatype logline =
    InfoStopping
  | WarnOpenError string string
  | InfoStopProcessing
  | WarnCloseError string string
  | DebugInitialized string
  | DebugOpened string
  | WarnReadError string string
  | DebugReadReturned string nat
  | InfoPublished string int64

text \<open>
  The calls of the beater that reach a collaborator, in the order they are made; a call
  whose answer the beater uses carries the answer. \<^verbatim>\<open>PublishEvents\<close> is always called
  with the options \<^verbatim>\<open>publisher.Sync\<close> and \<^verbatim>\<open>publisher.Guaranteed\<close>, which are not
  recorded; \<open>PublishedAdd\<close> and \<open>IgnoredAdd\<close> are \<^verbatim>\<open>Add\<close> on the two \<^verbatim>\<open>expvar\<close> maps,
  \<open>Log\<close> a line written with \<^verbatim>\<open>logp\<close> or \<^verbatim>\<open>debugf\<close>, \<open>Sleep\<close> a \<^verbatim>\<open>time.Sleep\<close> of
  that many nanoseconds.
\<close>

datatype ('p, 'e) action =
    ApiOpen string uint64
  | ApiRead string "string + 'p Record list"
  | ApiClose string
  | Sleep int
  | PublishEvents "'e list" bool
  | PublishedAdd string int64
  | IgnoredAdd string int64
  | Log logline
  | Persist string uint64 Time
  | WgAdd int
  | WgDone
  | CheckpointStates
  | CheckpointShutdown

section \<open>The polling worker: \<^verbatim>\<open>processEventLog\<close>\<close>

datatype control = Continue | Break | Return

text \<open>One pass through the body of the \<^verbatim>\<open>for\<close> loop (lines 205 to 248).\<close>

definition iteration ::
  "('p Record \<Rightarrow> 'e) \<Rightarrow> string \<Rightarrow> 'p tick \<Rightarrow> control \<times> ('p, 'e) action list" where
  "iteration conv name t =
     (if done_closed t then (Return, [])
      else case read_result t of
        Inl err \<Rightarrow> (Break, [ApiRead name (read_result t), Log (WarnReadError name err)])
      | Inr records \<Rightarrow>
          if length records = 0 then
            (Continue,
             [ApiRead name (read_result t), Log (DebugReadReturned name (length records)), Sleep time_Second])
          else
            let events = map conv records;
                numEvents = (of_nat (length events) :: int64)
            in if \<not> publish_ok t then
                 (Return,
                  [ApiRead name (read_result t), Log (DebugReadReturned name (length records)),
                   PublishEvents events False])
               else
                 (Continue,
                  [ApiRead name (read_result t), Log (DebugReadReturned name (length records)),
                   PublishEvents events True,
                   PublishedAdd ''total'' numEvents,
                   PublishedAdd name numEvents,
                   Log (InfoPublished name numEvents),
                   Persist name (RecordID (records ! (length records - 1)))
                     (UTC (SystemTime (TimeCreated (records ! (length records - 1)))))]))"

text \<open>
  How the worker left, or \<open>StillRunning\<close> when the answers of the environment run out
  before the loop has left: the loop has no bound of its own.
\<close>

datatype exit = OpenFailed | LoopReturned | LoopBroke | StillRunning

fun eventLoop ::
  "('p Record \<Rightarrow> 'e) \<Rightarrow> string \<Rightarrow> 'p tick list \<Rightarrow> exit \<times> ('p, 'e) action list" where
  "eventLoop conv name [] = (StillRunning, [])"
| "eventLoop conv name (t # ts) =
     (case iteration conv name t of
        (Continue, acts) \<Rightarrow>
          (case eventLoop conv name ts of (ex, rest) \<Rightarrow> (ex, acts @ rest))
      | (Break, acts) \<Rightarrow> (LoopBroke, acts)
      | (Return, acts) \<Rightarrow> (LoopReturned, acts))"

text \<open>The deferred function of lines 194 to 201, then the deferred \<^verbatim>\<open>wg.Done()\<close>.\<close>

definition deferred :: "EventLog \<Rightarrow> ('p, 'e) action list" where
  "deferred api =
     [Log InfoStopProcessing, ApiClose (Name api)] @
     (case Close api of
        Some err \<Rightarrow> [Log (WarnCloseError (Name api) err)]
      | None \<Rightarrow> []) @
     [WgDone]"

definition processEventLog ::
  "('p Record \<Rightarrow> 'e) \<Rightarrow> EventLog \<Rightarrow> EventLogState \<Rightarrow> 'p tick list \<Rightarrow> exit \<times> ('p, 'e) action list" where
  "processEventLog conv api state ticks =
     (case Open api (RecordNumber state) of
        Some err \<Rightarrow>
          (OpenFailed,
           [ApiOpen (Name api) (RecordNumber state),
            Log (WarnOpenError (Name api) err),
            WgDone])
      | None \<Rightarrow>
          (case eventLoop conv (Name api) ticks of
             (StillRunning, acts) \<Rightarrow>
               (StillRunning,
                [ApiOpen (Name api) (RecordNumber state), Log (DebugOpened (Name api))] @ acts)
           | (ex, acts) \<Rightarrow>
               (ex,
                [ApiOpen (Name api) (RecordNumber state), Log (DebugOpened (Name api))] @ acts
                @ deferred api)))"

section \<open>The checkpoint store\<close>

text \<open>
  The package \<^verbatim>\<open>winlogbeat/checkpoint\<close> is not among the sources; the beater calls its
  \<^verbatim>\<open>States\<close>, \<^verbatim>\<open>Persist\<close> and \<^verbatim>\<open>Shutdown\<close>. Its in-memory state is the mapping from
  source name to checkpoint state.
\<close>

type_synonym Checkpoint = "string \<rightharpoonup> EventLogState"

text \<open>
  Modelled from the spec: \<^verbatim>\<open>checkpoint.States\<close> is missing; the spec's \<^verbatim>\<open>load()\<close> returns the
  mapping from source name to the last persisted checkpoint state, a source without a prior
  record being absent from it.
\<close>

definition States :: "Checkpoint \<Rightarrow> (string \<rightharpoonup> EventLogState)" where
  "States cp = cp"

text \<open>
  Modelled from the spec: \<^verbatim>\<open>checkpoint.Persist\<close> is missing; the spec's
  \<^verbatim>\<open>persist(sourceName, position, timestamp)\<close> records the update of that source's entry
  and touches no other entry.
\<close>

definition PersistState :: "string \<Rightarrow> uint64 \<Rightarrow> Time \<Rightarrow> Checkpoint \<Rightarrow> Checkpoint" where
  "PersistState name recordNumber ts cp =
     cp(name \<mapsto> \<lparr>StateName = name, RecordNumber = recordNumber, Timestamp = ts\<rparr>)"

text \<open>The effect of one action, and of a list of actions, on the checkpoint store.\<close>

fun perform :: "('p, 'e) action \<Rightarrow> Checkpoint \<Rightarrow> Checkpoint" where
  "perform (Persist name recordNumber ts) cp = PersistState name recordNumber ts cp"
| "perform _ cp = cp"

definition checkpoint_after :: "('p, 'e) action list \<Rightarrow> Checkpoint \<Rightarrow> Checkpoint" where
  "checkpoint_after acts cp = fold perform acts cp"

subsection \<open>Reading a list of actions\<close>

fun persist_of :: "('p, 'e) action \<Rightarrow> (string \<times> uint64 \<times> Time) list" where
  "persist_of (Persist name recordNumber ts) = [(name, recordNumber, ts)]"
| "persist_of _ = []"

text \<open>The \<^verbatim>\<open>Persist\<close> calls of a list of actions, in order, and their positions.\<close>

definition persists :: "('p, 'e) action list \<Rightarrow> (string \<times> uint64 \<times> Time) list" where
  "persists acts = concat (map persist_of acts)"

definition persisted_positions :: "('p, 'e) action list \<Rightarrow> uint64 list" where
  "persisted_positions acts = map (\<lambda>(name, recordNumber, ts). recordNumber) (persists acts)"

fun read_of :: "('p, 'e) action \<Rightarrow> 'p Record list" where
  "read_of (ApiRead name (Inr records)) = records"
| "read_of _ = []"

text \<open>The records the source has yielded to the \<^verbatim>\<open>Read\<close> calls, in order.\<close>

definition records_read :: "('p, 'e) action list \<Rightarrow> 'p Record list" where
  "records_read acts = concat (map read_of acts)"

fun publish_of :: "('p, 'e) action \<Rightarrow> 'e list" where
  "publish_of (PublishEvents events ok) = events"
| "publish_of _ = []"

text \<open>The events handed to \<^verbatim>\<open>PublishEvents\<close>, in order.\<close>

definition events_published :: "('p, 'e) action list \<Rightarrow> 'e list" where
  "events_published acts = concat (map publish_of acts)"

fun is_persist :: "('p, 'e) action \<Rightarrow> bool" where
  "is_persist (Persist name recordNumber ts) = True"
| "is_persist _ = False"

fun is_close :: "('p, 'e) action \<Rightarrow> bool" where
  "is_close (ApiClose name) = True"
| "is_close _ = False"

section \<open>The beater: \<^verbatim>\<open>Setup\<close> and \<^verbatim>\<open>Stop\<close>\<close>

text \<open>A channel of Go is nil (\<open>None\<close>), open or closed; closing it can panic.\<close>

datatype chan = ChanOpen | ChanClosed

datatype panic = CloseOfNilChannel | CloseOfClosedChannel | NilDereference | NegativeWaitGroup

definition close_chan :: "chan option \<Rightarrow> panic + chan option" where
  "close_chan c =
     (case c of
        None \<Rightarrow> Inl CloseOfNilChannel
      | Some ChanClosed \<Rightarrow> Inl CloseOfClosedChannel
      | Some ChanOpen \<Rightarrow> Inr (Some ChanClosed))"

text \<open>The settings the beater reads from \<^verbatim>\<open>config.Settings\<close>; \<open>'c\<close> configures one event log.\<close>

record 'c Settings =
  RegistryFile :: string
  BindAddress :: string
  EventLogs :: "'c list"

text \<open>
  The \<^verbatim>\<open>Winlogbeat\<close> struct. The publisher client is \<open>None\<close> before \<^verbatim>\<open>Setup\<close> and
  afterwards counts the calls of its \<^verbatim>\<open>Close\<close>; \<open>logged\<close> collects the lines written
  with \<^verbatim>\<open>logp\<close> by the methods below.
\<close>

record 'c Winlogbeat =
  config :: "'c Settings"
  eventLogs :: "EventLog list"
  done_chan :: "chan option"
  client :: "nat option"
  checkpoint :: "Checkpoint option"
  logged :: "logline list"

definition New :: "'c Settings \<Rightarrow> 'c Winlogbeat" where
  "New cfg =
     \<lparr>config = cfg, eventLogs = [], done_chan = None, client = None, checkpoint = None,
      logged = []\<rparr>"

text \<open>
  The loop of lines 117 to 126: \<^verbatim>\<open>eventlog.New\<close> (the parameter \<open>new\<close>) creates each event
  log, which is reported with \<^verbatim>\<open>debugf\<close> and appended; the first failure returns the error,
  with the logs appended and the lines written so far.
\<close>

fun create_logs ::
  "('c \<Rightarrow> string + EventLog) \<Rightarrow> 'c list \<Rightarrow> EventLog list \<Rightarrow> logline list \<Rightarrow>
   string option \<times> EventLog list \<times> logline list" where
  "create_logs new [] logs lines = (None, logs, lines)"
| "create_logs new (c # cs) logs lines =
     (case new c of
        Inl err \<Rightarrow> (Some (''Failed to create new event log. '' @ err), logs, lines)
      | Inr eventLog \<Rightarrow>
          create_logs new cs (logs @ [eventLog])
            (lines @ [DebugInitialized (Name eventLog)]))"

text \<open>
  \<^verbatim>\<open>Setup\<close>, with \<^verbatim>\<open>checkpoint.NewCheckpoint\<close>, \<^verbatim>\<open>net.Listen\<close> and \<^verbatim>\<open>eventlog.New\<close> as
  parameters. It returns the error (if any) and the beater as the call leaves it. The
  goroutine serving the metrics touches nothing of the beater and is left out.
\<close>

definition Setup ::
  "(string \<Rightarrow> nat \<Rightarrow> int \<Rightarrow> string + Checkpoint) \<Rightarrow> (string \<Rightarrow> string option) \<Rightarrow>
   ('c \<Rightarrow> string + EventLog) \<Rightarrow> 'c Winlogbeat \<Rightarrow> string option \<times> 'c Winlogbeat" where
  "Setup newCheckpoint listen new eb =
     (let eb1 = eb\<lparr>client := Some 0, done_chan := Some ChanOpen\<rparr> in
      case newCheckpoint (RegistryFile (config eb1)) 10 (5 * time_Second) of
        Inl err \<Rightarrow> (Some err, eb1\<lparr>checkpoint := None\<rparr>)
      | Inr cp \<Rightarrow>
          (let eb2 = eb1\<lparr>checkpoint := Some cp\<rparr> in
           (case (if BindAddress (config eb2) \<noteq> [] then listen (BindAddress (config eb2))
                  else None) of
              Some err \<Rightarrow> (Some err, eb2)
            | None \<Rightarrow>
                (case create_logs new (EventLogs (config eb2)) [] (logged eb2) of
                   (err, logs, lines) \<Rightarrow>
                     (err, eb2\<lparr>eventLogs := logs, logged := lines\<rparr>)))))"

text \<open>\<^verbatim>\<open>Stop\<close> (lines 173 to 179): \<open>Inl\<close> is the panic of \<^verbatim>\<open>close\<close>.\<close>

definition Stop :: "'c Winlogbeat \<Rightarrow> panic + 'c Winlogbeat" where
  "Stop eb =
     (let eb1 = eb\<lparr>logged := logged eb @ [InfoStopping]\<rparr> in
      if done_chan eb1 \<noteq> None then
        (case close_chan (done_chan eb1) of
           Inl p \<Rightarrow> Inl p
         | Inr c \<Rightarrow>
             (case client eb1 of
                None \<Rightarrow> Inl NilDereference
              | Some closes \<Rightarrow> Inr (eb1\<lparr>done_chan := c, client := Some (Suc closes)\<rparr>)))
      else Inr eb1)"

text \<open>\<^verbatim>\<open>Stop\<close> invoked \<open>n\<close> times in succession; a panic ends the sequence.\<close>

fun Stop_times :: "nat \<Rightarrow> 'c Winlogbeat \<Rightarrow> panic + 'c Winlogbeat" where
  "Stop_times 0 eb = Inr eb"
| "Stop_times (Suc n) eb = (case Stop eb of Inl p \<Rightarrow> Inl p | Inr eb' \<Rightarrow> Stop_times n eb')"

section \<open>The coordinator: \<^verbatim>\<open>Run\<close> and its goroutines\<close>

text \<open>
  \<^verbatim>\<open>Run\<close> is straight-line code around a loop over the event logs: it is unrolled into
  the list of its steps. \<open>Do\<close> is a call made by \<^verbatim>\<open>Run\<close> itself, \<open>Go\<close> starts a goroutine
  (given as the result of \<^verbatim>\<open>processEventLog\<close>: how it leaves and the actions it performs),
  \<open>Wait\<close> is \<^verbatim>\<open>wg.Wait()\<close>.
\<close>

type_synonym ('p, 'e) thread = "exit \<times> ('p, 'e) action list"

datatype ('p, 'e) mstep = Do "('p, 'e) action" | Go "('p, 'e) thread" | Wait

text \<open>
  The body of the loop of lines 140 to 150 for the event log at index \<open>i\<close>;
  \<open>script i\<close> is what the environment answers to its worker.
\<close>

text \<open>Indexing a Go map: a missing key yields the zero value.\<close>

definition map_index :: "(string \<rightharpoonup> EventLogState) \<Rightarrow> string \<Rightarrow> EventLogState" where
  "map_index m key = (case m key of Some st \<Rightarrow> st | None \<Rightarrow> zero_EventLogState)"

definition spawn_steps ::
  "('p Record \<Rightarrow> 'e) \<Rightarrow> (string \<rightharpoonup> EventLogState) \<Rightarrow> (nat \<Rightarrow> 'p tick list) \<Rightarrow> nat \<Rightarrow>
   EventLog \<Rightarrow> ('p, 'e) mstep list" where
  "spawn_steps conv persistedState script i log =
     (let state = map_index persistedState (Name log)
      in [Do (PublishedAdd (Name log) 0),
          Do (IgnoredAdd (Name log) 0),
          Do (WgAdd 1),
          Go (processEventLog conv log state (script i))])"

fun spawn_all ::
  "('p Record \<Rightarrow> 'e) \<Rightarrow> (string \<rightharpoonup> EventLogState) \<Rightarrow> (nat \<Rightarrow> 'p tick list) \<Rightarrow> nat \<Rightarrow>
   EventLog list \<Rightarrow> ('p, 'e) mstep list" where
  "spawn_all conv persistedState script i [] = []"
| "spawn_all conv persistedState script i (log # logs) =
     spawn_steps conv persistedState script i log @
     spawn_all conv persistedState script (Suc i) logs"

text \<open>\<^verbatim>\<open>Run\<close> (lines 132 to 155); a nil checkpoint store is a panic at line 133.\<close>

definition Run ::
  "('p Record \<Rightarrow> 'e) \<Rightarrow> (nat \<Rightarrow> 'p tick list) \<Rightarrow> 'c Winlogbeat \<Rightarrow> panic + ('p, 'e) mstep list" where
  "Run conv script eb =
     (case checkpoint eb of
        None \<Rightarrow> Inl NilDereference
      | Some cp \<Rightarrow>
          (let persistedState = States cp in
           Inr ([Do CheckpointStates,
                 Do (PublishedAdd ''total'' 0),
                 Do (IgnoredAdd ''total'' 0)] @
                spawn_all conv persistedState script 0 (eventLogs eb) @
                [Wait, Do CheckpointShutdown])))"

text \<open>
  The running system: what \<^verbatim>\<open>Run\<close> still has to do, the goroutines started so far with
  the actions each still has to perform, the counter of the \<^verbatim>\<open>sync.WaitGroup\<close>, and the
  actions performed so far, each with who performed it.
\<close>

datatype tid = Coordinator | Worker nat

record ('p, 'e) system =
  main :: "('p, 'e) mstep list"
  threads :: "('p, 'e) thread list"
  wg :: int
  history :: "(tid \<times> ('p, 'e) action) list"
  fault :: "panic option"

definition start :: "('p, 'e) mstep list \<Rightarrow> ('p, 'e) system" where
  "start prog = \<lparr>main = prog, threads = [], wg = 0, history = [], fault = None\<rparr>"

fun wg_delta :: "('p, 'e) action \<Rightarrow> int" where
  "wg_delta (WgAdd n) = n"
| "wg_delta WgDone = - 1"
| "wg_delta _ = 0"

text \<open>
  One action by \<open>who\<close>: it is appended to the history and moves the counter of the wait
  group, which panics when it would become negative.
\<close>

definition act :: "tid \<Rightarrow> ('p, 'e) action \<Rightarrow> ('p, 'e) system \<Rightarrow> ('p, 'e) system" where
  "act who a s =
     (if wg s + wg_delta a < 0 then s\<lparr>fault := Some NegativeWaitGroup\<rparr>
      else s\<lparr>wg := wg s + wg_delta a, history := history s @ [(who, a)]\<rparr>)"

text \<open>
  The scheduler lets \<open>who\<close> take its next step. A goroutine that has nothing left to do, a
  \<^verbatim>\<open>wg.Wait()\<close> whose counter is not zero and a system that has panicked do not move.
\<close>

definition step :: "tid \<Rightarrow> ('p, 'e) system \<Rightarrow> ('p, 'e) system" where
  "step who s =
     (if fault s \<noteq> None then s
      else case who of
        Coordinator \<Rightarrow>
          (case main s of
             [] \<Rightarrow> s
           | Do a # rest \<Rightarrow> act Coordinator a (s\<lparr>main := rest\<rparr>)
           | Go t # rest \<Rightarrow> s\<lparr>main := rest, threads := threads s @ [t]\<rparr>
           | Wait # rest \<Rightarrow> if wg s = 0 then s\<lparr>main := rest\<rparr> else s)
      | Worker i \<Rightarrow>
          if i < length (threads s) then
            (case threads s ! i of
               (ex, []) \<Rightarrow> s
             | (ex, a # rest) \<Rightarrow> act (Worker i) a (s\<lparr>threads := (threads s)[i := (ex, rest)]\<rparr>))
          else s)"

text \<open>A schedule is the list of who moves next.\<close>

definition exec :: "tid list \<Rightarrow> ('p, 'e) system \<Rightarrow> ('p, 'e) system" where
  "exec schedule s = fold step schedule s"

fun by_worker :: "nat \<Rightarrow> tid \<times> ('p, 'e) action \<Rightarrow> ('p, 'e) action list" where
  "by_worker j (Worker i, a) = (if i = j then [a] else [])"
| "by_worker j (Coordinator, a) = []"

text \<open>The actions worker \<open>j\<close> has performed, in order.\<close>

definition worker_history :: "nat \<Rightarrow> (tid \<times> ('p, 'e) action) list \<Rightarrow> ('p, 'e) action list" where
  "worker_history j h = concat (map (by_worker j) h)"

text \<open>A goroutine has finished when \<^verbatim>\<open>processEventLog\<close> has returned.\<close>

definition finished :: "('p, 'e) thread \<Rightarrow> bool" where
  "finished t = (fst t \<noteq> StillRunning \<and> snd t = [])"

section \<open>Auxiliary definitions\<close>

subsection \<open>What the worker does around a \<^verbatim>\<open>Persist\<close>\<close>

text \<open>
  The actions of a pass of the loop that reads a non-empty batch and publishes it with
  success, up to the \<^verbatim>\<open>Persist\<close> call.
\<close>

definition published_block ::
  "('p Record \<Rightarrow> 'e) \<Rightarrow> string \<Rightarrow> 'p Record list \<Rightarrow> ('p, 'e) action list" where
  "published_block conv name records =
     [ApiRead name (Inr records), Log (DebugReadReturned name (length records)),
      PublishEvents (map conv records) True,
      PublishedAdd ''total'' (of_nat (length records)),
      PublishedAdd name (of_nat (length records)),
      Log (InfoPublished name (of_nat (length records)))]"

text \<open>
  Every \<^verbatim>\<open>Persist\<close> of a list of actions comes right after such a block and carries the
  last record of its batch.
\<close>

definition acked :: "('p Record \<Rightarrow> 'e) \<Rightarrow> string \<Rightarrow> ('p, 'e) action list \<Rightarrow> bool" where
  "acked conv name acts \<longleftrightarrow>
     (\<forall>pre n r ts post. acts = pre @ Persist n r ts # post \<longrightarrow>
        (\<exists>records before.
           records \<noteq> [] \<and> n = name \<and> r = RecordID (last records) \<and>
           ts = UTC (SystemTime (TimeCreated (last records))) \<and>
           pre = before @ published_block conv name records))"

subsection \<open>Invariants of the running system\<close>

text \<open>The goroutines a list of steps of \<^verbatim>\<open>Run\<close> starts, in order.\<close>

fun gos :: "('p, 'e) mstep list \<Rightarrow> ('p, 'e) thread list" where
  "gos [] = []"
| "gos (Go t # m) = t # gos m"
| "gos (Do a # m) = gos m"
| "gos (Wait # m) = gos m"

text \<open>The number of calls of the \<^verbatim>\<open>Shutdown\<close> of the checkpoint store in a history.\<close>

definition shutdowns :: "(tid \<times> ('p, 'e) action) list \<Rightarrow> nat" where
  "shutdowns h = length (filter (\<lambda>x. snd x = CheckpointShutdown) h)"

text \<open>
  An action that neither moves the wait group nor shuts the checkpoint store down. What a
  worker still has to do is such actions, followed by \<^verbatim>\<open>wg.Done()\<close> unless its loop is
  still running.
\<close>

definition plain :: "('p, 'e) action \<Rightarrow> bool" where
  "plain a \<longleftrightarrow> a \<noteq> CheckpointShutdown \<and> a \<noteq> WgDone \<and> wg_delta a = 0"

definition wf_thread :: "('p, 'e) thread \<Rightarrow> bool" where
  "wf_thread t \<longleftrightarrow>
     (if fst t = StillRunning then (\<forall>a \<in> set (snd t). plain a)
      else snd t = [] \<or> (\<exists>p. snd t = p @ [WgDone] \<and> (\<forall>a \<in> set p. plain a)))"

text \<open>
  The shape of what \<^verbatim>\<open>Run\<close> still has to do: every \<open>Go\<close> comes right after a
  \<^verbatim>\<open>wg.Add(1)\<close> (\<open>pending\<close> says that the \<^verbatim>\<open>Add\<close> has been done and its \<open>Go\<close> has not),
  and the list ends with \<open>Wait\<close> and the \<^verbatim>\<open>Shutdown\<close>.
\<close>

fun main_ok :: "bool \<Rightarrow> ('p, 'e) mstep list \<Rightarrow> bool" where
  "main_ok pending [] = False"
| "main_ok pending (Go t # m) = (pending \<and> wf_thread t \<and> \<not> finished t \<and> main_ok False m)"
| "main_ok pending (Wait # m) = (\<not> pending \<and> m = [Do CheckpointShutdown])"
| "main_ok pending (Do a # m) =
     (\<not> pending \<and> a \<noteq> CheckpointShutdown \<and> (wg_delta a = 0 \<or> wg_delta a = 1) \<and>
      main_ok (wg_delta a = 1) m)"

definition unfinished :: "('p, 'e) thread list \<Rightarrow> int" where
  "unfinished ts = int (length (filter (\<lambda>t. \<not> finished t) ts))"

definition no_shutdown :: "(tid \<times> ('p, 'e) action) list \<Rightarrow> bool" where
  "no_shutdown h \<longleftrightarrow> (\<forall>x \<in> set h. snd x \<noteq> CheckpointShutdown)"

text \<open>
  The three phases of a run. Before \<^verbatim>\<open>wg.Wait()\<close> has returned, the counter of the wait
  group is the number of goroutines that have not finished (plus one between a
  \<^verbatim>\<open>wg.Add(1)\<close> and its \<open>Go\<close>); after it, every goroutine has finished; after the
  \<^verbatim>\<open>Shutdown\<close>, that call is the last entry of the history and the only one of its kind.
\<close>

definition spawning :: "('p, 'e) system \<Rightarrow> bool" where
  "spawning s \<longleftrightarrow>
     (\<exists>pending. main_ok pending (main s) \<and>
        wg s = (if pending then 1 else 0) + unfinished (threads s)) \<and>
     no_shutdown (history s)"

definition joined :: "('p, 'e) system \<Rightarrow> bool" where
  "joined s \<longleftrightarrow>
     main s = [Do CheckpointShutdown] \<and> wg s = 0 \<and> (\<forall>t \<in> set (threads s). finished t) \<and>
     no_shutdown (history s)"

definition returned :: "('p, 'e) system \<Rightarrow> bool" where
  "returned s \<longleftrightarrow>
     main s = [] \<and> wg s = 0 \<and> (\<forall>t \<in> set (threads s). finished t) \<and>
     (\<exists>h. history s = h @ [(Coordinator, CheckpointShutdown)] \<and> no_shutdown h)"

definition inv :: "('p, 'e) system \<Rightarrow> bool" where
  "inv s \<longleftrightarrow>
     fault s = None \<and> (\<forall>t \<in> set (threads s). wf_thread t) \<and>
     (spawning s \<or> joined s \<or> returned s)"

text \<open>
  The goroutines started so far are the first ones of the program, and what each has
  performed, followed by what it still has to do, is what it was started with.
\<close>

definition tracks :: "('p, 'e) mstep list \<Rightarrow> ('p, 'e) system \<Rightarrow> bool" where
  "tracks prog s \<longleftrightarrow>
     length (threads s) \<le> length (gos prog) \<and>
     gos (main s) = drop (length (threads s)) (gos prog) \<and>
     (\<forall>j < length (threads s).
        fst (threads s ! j) = fst (gos prog ! j) \<and>
        worker_history j (history s) @ snd (threads s ! j) = snd (gos prog ! j)) \<and>
     (\<forall>j. length (threads s) \<le> j \<longrightarrow> worker_history j (history s) = [])"

subsection \<open>Example runs\<close>

text \<open>
  Three event logs: \<open>App\<close> opens and closes without error, \<open>Sys\<close> fails to close,
  \<open>Security\<close> fails to open.
\<close>

definition App :: EventLog where
  "App = \<lparr>Name = ''App'', Open = (\<lambda>recordNumber. None), Close = None\<rparr>"

definition Sys :: EventLog where
  "Sys = \<lparr>Name = ''Sys'', Open = (\<lambda>recordNumber. None), Close = Some ''close failed''\<rparr>"

definition Security :: EventLog where
  "Security =
     \<lparr>Name = ''Security'', Open = (\<lambda>recordNumber. Some ''access denied''), Close = None\<rparr>"

text \<open>The record with identifier \<open>n\<close>, and passes of the loop as the environment answers.\<close>

definition record_no :: "nat \<Rightarrow> unit Record" where
  "record_no n =
     \<lparr>RecordID = of_nat n,
      TimeCreated = \<lparr>SystemTime = \<lparr>instant = int n, location = ''Local''\<rparr>\<rparr>,
      payload = ()\<rparr>"

definition yields :: "unit Record list \<Rightarrow> bool \<Rightarrow> unit tick" where
  "yields records ok = \<lparr>done_closed = False, read_result = Inr records, publish_ok = ok\<rparr>"

definition read_fails :: "string \<Rightarrow> unit tick" where
  "read_fails err = \<lparr>done_closed = False, read_result = Inl err, publish_ok = False\<rparr>"

definition shutdown_seen :: "unit tick" where
  "shutdown_seen = \<lparr>done_closed = True, read_result = Inr [], publish_ok = False\<rparr>"

text \<open>
  A beater set up for \<open>App\<close> and \<open>Sys\<close> with an empty checkpoint store: the worker of
  \<open>App\<close> publishes one record and then sees the done channel closed, the worker of \<open>Sys\<close>
  fails to read. The schedule runs \<^verbatim>\<open>Run\<close> up to \<^verbatim>\<open>wg.Wait()\<close>, alternates the two
  workers until both have finished, and lets \<^verbatim>\<open>Run\<close> return.
\<close>

definition example_settings :: "EventLog Settings" where
  "example_settings =
     \<lparr>RegistryFile = ''.winlogbeat.yml'', BindAddress = [], EventLogs = [App, Sys]\<rparr>"

definition example_beater :: "EventLog Winlogbeat" where
  "example_beater =
     snd (Setup (\<lambda>file maxUpdates interval. Inr Map.empty) (\<lambda>address. None) Inr
            (New example_settings))"

definition example_script :: "nat \<Rightarrow> unit tick list" where
  "example_script i =
     (if i = 0 then [yields [record_no 1] True, shutdown_seen] else [read_fails ''io''])"

definition example_schedule :: "tid list" where
  "example_schedule =
     replicate 11 Coordinator @ concat (replicate 8 [Worker 0, Worker 1]) @
     replicate 4 (Worker 0) @ [Coordinator, Coordinator]"

definition example_program :: "(unit, uint64) mstep list" where
  "example_program =
     [Do CheckpointStates, Do (PublishedAdd ''total'' 0), Do (IgnoredAdd ''total'' 0)] @
     spawn_all RecordID Map.empty example_script 0 [App, Sys] @
     [Wait, Do CheckpointShutdown]"

text \<open>The same for \<open>Security\<close> and \<open>App\<close>.\<close>

definition failing_beater :: "EventLog Winlogbeat" where
  "failing_beater =
     snd (Setup (\<lambda>file maxUpdates interval. Inr Map.empty) (\<lambda>address. None) Inr
            (New (example_settings\<lparr>EventLogs := [Security, App]\<rparr>)))"

definition failing_program :: "(unit, uint64) mstep list" where
  "failing_program =
     [Do CheckpointStates, Do (PublishedAdd ''total'' 0), Do (IgnoredAdd ''total'' 0)] @
     spawn_all RecordID Map.empty example_script 0 [Security, App] @
     [Wait, Do CheckpointShutdown]"

section \<open>Lemmas\<close>

subsection \<open>One pass of the loop, and the loop\<close>

lemma nth_last_records: "records \<noteq> [] \<Longrightarrow> records ! (length records - Suc 0) = last records"
  by (simp add: last_conv_nth)

lemma iteration_done:
  "done_closed t \<Longrightarrow> iteration conv name t = (Return, [])"
  by (simp add: iteration_def)

lemma iteration_read_error:
  "\<not> done_closed t \<Longrightarrow> read_result t = Inl err \<Longrightarrow>
   iteration conv name t = (Break, [ApiRead name (Inl err), Log (WarnReadError name err)])"
  by (simp add: iteration_def)

lemma iteration_empty:
  "\<not> done_closed t \<Longrightarrow> read_result t = Inr [] \<Longrightarrow>
   iteration conv name t =
     (Continue, [ApiRead name (Inr []), Log (DebugReadReturned name 0), Sleep time_Second])"
  by (simp add: iteration_def)

lemma iteration_publish_failed:
  "\<not> done_closed t \<Longrightarrow> read_result t = Inr records \<Longrightarrow> records \<noteq> [] \<Longrightarrow> \<not> publish_ok t \<Longrightarrow>
   iteration conv name t =
     (Return,
      [ApiRead name (Inr records), Log (DebugReadReturned name (length records)),
       PublishEvents (map conv records) False])"
  by (simp add: iteration_def)

lemma iteration_published:
  "\<not> done_closed t \<Longrightarrow> read_result t = Inr records \<Longrightarrow> records \<noteq> [] \<Longrightarrow> publish_ok t \<Longrightarrow>
   iteration conv name t =
     (Continue,
      [ApiRead name (Inr records), Log (DebugReadReturned name (length records)),
       PublishEvents (map conv records) True,
       PublishedAdd ''total'' (of_nat (length records)),
       PublishedAdd name (of_nat (length records)),
       Log (InfoPublished name (of_nat (length records))),
       Persist name (RecordID (last records)) (UTC (SystemTime (TimeCreated (last records))))])"
  by (simp add: iteration_def nth_last_records Let_def)

lemma iteration_cases:
  obtains (shutdown) "done_closed t" "iteration conv name t = (Return, [])"
  | (read_error) err where "\<not> done_closed t" "read_result t = Inl err"
      "iteration conv name t = (Break, [ApiRead name (Inl err), Log (WarnReadError name err)])"
  | (empty) "\<not> done_closed t" "read_result t = Inr []"
      "iteration conv name t =
         (Continue, [ApiRead name (Inr []), Log (DebugReadReturned name 0), Sleep time_Second])"
  | (publish_failed) records where "\<not> done_closed t" "read_result t = Inr records"
      "records \<noteq> []" "\<not> publish_ok t"
      "iteration conv name t =
         (Return,
          [ApiRead name (Inr records), Log (DebugReadReturned name (length records)),
           PublishEvents (map conv records) False])"
  | (published) records where "\<not> done_closed t" "read_result t = Inr records"
      "records \<noteq> []" "publish_ok t"
      "iteration conv name t =
     (Continue,
      [ApiRead name (Inr records), Log (DebugReadReturned name (length records)),
       PublishEvents (map conv records) True,
       PublishedAdd ''total'' (of_nat (length records)),
       PublishedAdd name (of_nat (length records)),
       Log (InfoPublished name (of_nat (length records))),
       Persist name (RecordID (last records)) (UTC (SystemTime (TimeCreated (last records))))])"
proof (cases "done_closed t")
  case True
  then show ?thesis using shutdown iteration_done by blast
next
  case nd: False
  show ?thesis
  proof (cases "read_result t")
    case (Inl err)
    then show ?thesis using nd read_error iteration_read_error by blast
  next
    case (Inr records)
    show ?thesis
    proof (cases "records = []")
      case True
      then show ?thesis using nd Inr empty iteration_empty by blast
    next
      case False
      then show ?thesis
        using nd Inr publish_failed published iteration_publish_failed iteration_published
        by (cases "publish_ok t") blast+
    qed
  qed
qed

lemma eventLoop_append:
  "eventLoop conv name ts1 = (StillRunning, a1) \<Longrightarrow>
   eventLoop conv name (ts1 @ ts2) =
     (case eventLoop conv name ts2 of (ex, a2) \<Rightarrow> (ex, a1 @ a2))"
proof (induction ts1 arbitrary: a1)
  case Nil
  then show ?case by (simp split: prod.splits)
next
  case (Cons t ts1)
  then show ?case
    by (cases rule: iteration_cases [of t conv name])
       (auto split: prod.splits control.splits)
qed

subsection \<open>A \<^verbatim>\<open>Persist\<close> follows a successful publish\<close>

lemma append_eq_mid:
  assumes "xs @ ys = pre @ x # post"
  shows "(\<exists>q. xs = pre @ x # q \<and> post = q @ ys) \<or> (\<exists>p. pre = xs @ p \<and> ys = p @ x # post)"
proof -
  from assms consider us where "xs = pre @ us" "us @ ys = x # post"
    | us where "xs @ us = pre" "ys = us @ x # post"
    by (auto simp: append_eq_append_conv2)
  then show ?thesis
  proof cases
    case 1
    then show ?thesis by (cases us) auto
  next
    case 2
    then show ?thesis by auto
  qed
qed

lemma acked_no_persist: "\<forall>a \<in> set acts. \<not> is_persist a \<Longrightarrow> acked conv name acts"
  unfolding acked_def by fastforce

lemma acked_append:
  assumes "acked conv name a" and "acked conv name b"
  shows "acked conv name (a @ b)"
  unfolding acked_def
proof (intro allI impI)
  fix pre n r ts post
  assume eq: "a @ b = pre @ Persist n r ts # post"
  from append_eq_mid [OF eq] show "\<exists>records before.
           records \<noteq> [] \<and> n = name \<and> r = RecordID (last records) \<and>
           ts = UTC (SystemTime (TimeCreated (last records))) \<and>
           pre = before @ published_block conv name records"
  proof
    assume "\<exists>q. a = pre @ Persist n r ts # q \<and> post = q @ b"
    then obtain q where "a = pre @ Persist n r ts # q" by blast
    with assms(1) show ?thesis unfolding acked_def by blast
  next
    assume "\<exists>p. pre = a @ p \<and> b = p @ Persist n r ts # post"
    then obtain p where p: "pre = a @ p" "b = p @ Persist n r ts # post" by blast
    from assms(2) p(2) obtain records before where
      "records \<noteq> []" "n = name" "r = RecordID (last records)"
      "ts = UTC (SystemTime (TimeCreated (last records)))"
      "p = before @ published_block conv name records"
      unfolding acked_def by blast
    with p(1) show ?thesis by (intro exI [of _ records] exI [of _ "a @ before"]) simp
  qed
qed

lemma acked_published:
  assumes "records \<noteq> []"
  shows "acked conv name
      (published_block conv name records @
       [Persist name (RecordID (last records)) (UTC (SystemTime (TimeCreated (last records))))])"
  unfolding acked_def
proof (intro allI impI)
  fix pre n r ts post
  let ?p = "Persist name (RecordID (last records)) (UTC (SystemTime (TimeCreated (last records))))
    :: ('a, 'b) action"
  assume eq: "published_block conv name records @ [?p] = pre @ Persist n r ts # post"
  from append_eq_mid [OF eq]
  have "pre = published_block conv name records \<and> n = name \<and> r = RecordID (last records) \<and>
        ts = UTC (SystemTime (TimeCreated (last records)))"
  proof
    assume "\<exists>q. published_block conv name records = pre @ Persist n r ts # q \<and> post = q @ [?p]"
    then obtain q where "published_block conv name records = pre @ Persist n r ts # q" by blast
    then have "Persist n r ts \<in> set (published_block conv name records)"
      by (metis in_set_conv_decomp)
    then show ?thesis by (simp add: published_block_def)
  next
    assume "\<exists>p. pre = published_block conv name records @ p \<and> [?p] = p @ Persist n r ts # post"
    then obtain p where p: "pre = published_block conv name records @ p"
      "[?p] = p @ Persist n r ts # post" by blast
    from p(2) have "p = []" by (cases p) auto
    with p show ?thesis by simp
  qed
  with assms show "\<exists>records' before.
           records' \<noteq> [] \<and> n = name \<and> r = RecordID (last records') \<and>
           ts = UTC (SystemTime (TimeCreated (last records'))) \<and>
           pre = before @ published_block conv name records'"
    by (intro exI [of _ records] exI [of _ "[]"]) simp
qed

lemma acked_iteration: "acked conv name (snd (iteration conv name t))"
proof (cases rule: iteration_cases [of t conv name])
  case (published records)
  then show ?thesis using acked_published [of records conv name]
    by (simp add: published_block_def)
qed (simp_all add: acked_no_persist)

lemma acked_eventLoop:
  "eventLoop conv name ticks = (ex, acts) \<Longrightarrow> acked conv name acts"
proof (induction ticks arbitrary: ex acts)
  case Nil
  then show ?case by (simp add: acked_no_persist)
next
  case (Cons t ticks)
  have it: "acked conv name (snd (iteration conv name t))"
    by (rule acked_iteration)
  show ?case
  proof (cases "iteration conv name t")
    case (Pair c a)
    show ?thesis
    proof (cases c)
      case Continue
      obtain ex' rest where r: "eventLoop conv name ticks = (ex', rest)" by fastforce
      with Cons.prems Pair Continue have acts: "acts = a @ rest" by simp
      from it Pair acts Cons.IH [OF r] show ?thesis by (simp add: acked_append)
    next
      case Break
      with Cons.prems Pair it show ?thesis by simp
    next
      case Return
      with Cons.prems Pair it show ?thesis by simp
    qed
  qed
qed

lemma deferred_no_persist: "\<forall>a \<in> set (deferred api). \<not> is_persist a"
  by (cases "Close api") (simp_all add: deferred_def)

lemma acked_processEventLog:
  assumes "processEventLog conv api state ticks = (ex, acts)"
  shows "acked conv (Name api) acts"
proof (cases "Open api (RecordNumber state)")
  case (Some err)
  with assms show ?thesis
    by (auto simp: processEventLog_def intro!: acked_no_persist)
next
  case None
  obtain ex' la where l: "eventLoop conv (Name api) ticks = (ex', la)" by fastforce
  have 1: "acked conv (Name api) [ApiOpen (Name api) (RecordNumber state), Log (DebugOpened (Name api))]"
    by (simp add: acked_no_persist)
  have 2: "acked conv (Name api) la" using l by (rule acked_eventLoop)
  have 3: "acked conv (Name api) (deferred api :: ('a, 'b) action list)" 
    using deferred_no_persist by (rule acked_no_persist)
  from assms None l have "acts = [ApiOpen (Name api) (RecordNumber state), Log (DebugOpened (Name api))] @ la
     \<or> acts = [ApiOpen (Name api) (RecordNumber state), Log (DebugOpened (Name api))] @ la @ deferred api"
    by (auto simp: processEventLog_def split: exit.splits)
  then show ?thesis using 1 2 3 acked_append by metis
qed

subsection \<open>The checkpoint store and the readings of a list of actions\<close>

lemma checkpoint_after_snoc: "checkpoint_after (p @ [a]) cp = perform a (checkpoint_after p cp)"
  by (simp add: checkpoint_after_def)

lemma checkpoint_after_append:
  "checkpoint_after (p @ q) cp = checkpoint_after q (checkpoint_after p cp)"
  by (simp add: checkpoint_after_def)

lemma checkpoint_after_cases:
  "checkpoint_after p cp n = cp n \<or>
   (\<exists>p1 r ts p2. p = p1 @ Persist n r ts # p2 \<and>
      checkpoint_after p cp n = Some \<lparr>StateName = n, RecordNumber = r, Timestamp = ts\<rparr>)"
proof (induction p rule: rev_induct)
  case Nil
  then show ?case by (simp add: checkpoint_after_def)
next
  case (snoc a p)
  show ?case
  proof (cases "\<exists>r ts. a = Persist n r ts")
    case True
    then obtain r ts where "a = Persist n r ts" by blast
    then show ?thesis by (auto simp: checkpoint_after_snoc PersistState_def)
  next
    case False
    then have same: "checkpoint_after (p @ [a]) cp n = checkpoint_after p cp n"
      by (cases a) (auto simp: checkpoint_after_snoc PersistState_def)
    from snoc.IH show ?thesis
    proof
      assume "checkpoint_after p cp n = cp n"
      with same show ?thesis by simp
    next
      assume "\<exists>p1 r ts p2. p = p1 @ Persist n r ts # p2 \<and>
        checkpoint_after p cp n = Some \<lparr>StateName = n, RecordNumber = r, Timestamp = ts\<rparr>"
      then obtain p1 r ts p2 where "p = p1 @ Persist n r ts # p2"
        "checkpoint_after p cp n = Some \<lparr>StateName = n, RecordNumber = r, Timestamp = ts\<rparr>"
        by blast
      with same have "p @ [a] = p1 @ Persist n r ts # (p2 @ [a]) \<and>
        checkpoint_after (p @ [a]) cp n = Some \<lparr>StateName = n, RecordNumber = r, Timestamp = ts\<rparr>"
        by simp
      then show ?thesis by blast
    qed
  qed
qed

lemma persists_append [simp]: "persists (a @ b) = persists a @ persists b"
  by (simp add: persists_def)

lemma persisted_positions_append [simp]:
  "persisted_positions (a @ b) = persisted_positions a @ persisted_positions b"
  by (simp add: persisted_positions_def)

lemma records_read_append [simp]: "records_read (a @ b) = records_read a @ records_read b"
  by (simp add: records_read_def)

lemma events_published_append [simp]:
  "events_published (a @ b) = events_published a @ events_published b"
  by (simp add: events_published_def)

lemma persists_simps [simp]: "persists [] = []" "persists (a # acts) = persist_of a @ persists acts"
  by (simp_all add: persists_def)

lemma persisted_positions_simps [simp]: "persisted_positions [] = []"
  "persisted_positions (a # acts) = map (\<lambda>(name, recordNumber, ts). recordNumber) (persist_of a) @ persisted_positions acts"
  by (simp_all add: persisted_positions_def)

lemma records_read_simps [simp]: "records_read [] = []"
  "records_read (a # acts) = read_of a @ records_read acts"
  by (simp_all add: records_read_def)

lemma events_published_simps [simp]: "events_published [] = []"
  "events_published (a # acts) = publish_of a @ events_published acts"
  by (simp_all add: events_published_def)

lemma checkpoint_after_simps [simp]: "checkpoint_after [] cp = cp"
  "checkpoint_after (a # acts) cp = checkpoint_after acts (perform a cp)"
  by (simp_all add: checkpoint_after_def)

lemma deferred_reads: "persists (deferred api) = []" "records_read (deferred api) = []"
  "events_published (deferred api) = []" "persisted_positions (deferred api) = []"
  by (cases "Close api"; simp add: deferred_def)+

lemma checkpoint_after_deferred: "checkpoint_after (deferred api) cp = cp"
  by (cases "Close api") (simp_all add: deferred_def)

subsection \<open>The worker as a whole\<close>

lemma processEventLog_opened:
  assumes "Open api (RecordNumber state) = None"
    and "eventLoop conv (Name api) ticks = (ex, acts)"
  shows "processEventLog conv api state ticks =
           (ex, [ApiOpen (Name api) (RecordNumber state), Log (DebugOpened (Name api))] @ acts @
                (if ex = StillRunning then [] else deferred api))"
  using assms by (cases ex) (simp_all add: processEventLog_def)

lemma eventLoop_not_OpenFailed: "eventLoop conv name ticks = (ex, acts) \<Longrightarrow> ex \<noteq> OpenFailed"
proof (induction ticks arbitrary: ex acts)
  case Nil
  then show ?case by auto
next
  case (Cons t ticks)
  then show ?case
    by (cases rule: iteration_cases [of t conv name]) (auto split: prod.splits)
qed

lemma eventLoop_no_close:
  "eventLoop conv name ticks = (ex, acts) \<Longrightarrow> \<forall>a \<in> set acts. \<not> is_close a"
proof (induction ticks arbitrary: ex acts)
  case Nil
  then show ?case by auto
next
  case (Cons t ticks)
  then show ?case
    by (cases rule: iteration_cases [of t conv name]) (auto split: prod.splits)
qed


subsection \<open>Order of the persisted positions\<close>

lemma subseq_set_mono: "subseq xs ys \<Longrightarrow> set xs \<subseteq> set ys"
  by (induction rule: list_emb.induct) auto

lemma sorted_wrt_subseq:
  "subseq xs ys \<Longrightarrow> sorted_wrt P ys \<Longrightarrow> sorted_wrt P xs"
proof (induction rule: list_emb.induct)
  case (list_emb_Nil ys)
  then show ?case by simp
next
  case (list_emb_Cons xs ys y)
  then show ?case by simp
next
  case (list_emb_Cons2 x y xs ys)
  then have "set xs \<subseteq> set ys" by (simp add: subseq_set_mono)
  with list_emb_Cons2 show ?case by auto
qed

lemma iteration_positions:
  "subseq (persisted_positions (snd (iteration conv name t)))
     (map RecordID (records_read (snd (iteration conv name t))))"
proof (cases rule: iteration_cases [of t conv name])
  case (published records)
  then show ?thesis by (simp add: subseq_singleton_left)
qed simp_all

lemma iteration_events:
  "events_published (snd (iteration conv name t)) =
     map conv (records_read (snd (iteration conv name t)))"
  by (cases rule: iteration_cases [of t conv name]) simp_all

lemma eventLoop_iterations:
  assumes "eventLoop conv name (t # ticks) = (ex, acts)"
  shows "(\<exists>ex' rest. fst (iteration conv name t) = Continue \<and> eventLoop conv name ticks = (ex', rest) \<and>
       ex = ex' \<and> acts = snd (iteration conv name t) @ rest)
   \<or> (fst (iteration conv name t) \<noteq> Continue \<and> ex \<noteq> StillRunning \<and>
       acts = snd (iteration conv name t))"
proof -
  obtain c a where it: "iteration conv name t = (c, a)" by fastforce
  obtain ex' rest where r: "eventLoop conv name ticks = (ex', rest)" by fastforce
  show ?thesis
  proof (cases c)
    case Continue
    with assms it r show ?thesis by simp
  next
    case Break
    with assms it r show ?thesis by auto
  next
    case Return
    with assms it r show ?thesis by auto
  qed
qed

lemma eventLoop_positions:
  "eventLoop conv name ticks = (ex, acts) \<Longrightarrow>
   subseq (persisted_positions acts) (map RecordID (records_read acts))"
proof (induction ticks arbitrary: ex acts)
  case Nil
  then show ?case by auto
next
  case (Cons t ticks)
  from eventLoop_iterations [OF Cons.prems] show ?case
  proof
    assume "\<exists>ex' rest. fst (iteration conv name t) = Continue \<and>
      eventLoop conv name ticks = (ex', rest) \<and> ex = ex' \<and>
      acts = snd (iteration conv name t) @ rest"
    then obtain ex' rest where r: "eventLoop conv name ticks = (ex', rest)"
      and a: "acts = snd (iteration conv name t) @ rest" by blast
    from Cons.IH [OF r] iteration_positions [of conv name t] show ?thesis
      unfolding a by (simp add: list_emb_append_mono)
  next
    assume "fst (iteration conv name t) \<noteq> Continue \<and> ex \<noteq> StillRunning \<and>
      acts = snd (iteration conv name t)"
    then show ?thesis using iteration_positions [of conv name t] by simp
  qed
qed

lemma eventLoop_events:
  "eventLoop conv name ticks = (ex, acts) \<Longrightarrow>
   events_published acts = map conv (records_read acts)"
proof (induction ticks arbitrary: ex acts)
  case Nil
  then show ?case by auto
next
  case (Cons t ticks)
  from eventLoop_iterations [OF Cons.prems] show ?case
  proof
    assume "\<exists>ex' rest. fst (iteration conv name t) = Continue \<and>
      eventLoop conv name ticks = (ex', rest) \<and> ex = ex' \<and>
      acts = snd (iteration conv name t) @ rest"
    then obtain ex' rest where r: "eventLoop conv name ticks = (ex', rest)"
      and a: "acts = snd (iteration conv name t) @ rest" by blast
    from Cons.IH [OF r] iteration_events [of conv name t] show ?thesis
      unfolding a by simp
  next
    assume "fst (iteration conv name t) \<noteq> Continue \<and> ex \<noteq> StillRunning \<and>
      acts = snd (iteration conv name t)"
    then show ?thesis using iteration_events [of conv name t] by simp
  qed
qed

lemma processEventLog_cases:
  assumes "processEventLog conv api state ticks = (ex, acts)"
  obtains (open_failed) err where "Open api (RecordNumber state) = Some err" "ex = OpenFailed"
      "acts = [ApiOpen (Name api) (RecordNumber state), Log (WarnOpenError (Name api) err), WgDone]"
  | (running) body where "Open api (RecordNumber state) = None"
      "eventLoop conv (Name api) ticks = (StillRunning, body)" "ex = StillRunning"
      "acts = [ApiOpen (Name api) (RecordNumber state), Log (DebugOpened (Name api))] @ body"
  | (left) body where "Open api (RecordNumber state) = None"
      "eventLoop conv (Name api) ticks = (ex, body)" "ex = LoopReturned \<or> ex = LoopBroke"
      "acts = [ApiOpen (Name api) (RecordNumber state), Log (DebugOpened (Name api))] @ body
              @ deferred api"
proof (cases "Open api (RecordNumber state)")
  case (Some err)
  with assms open_failed show ?thesis by (auto simp: processEventLog_def)
next
  case None
  obtain ex' body where l: "eventLoop conv (Name api) ticks = (ex', body)" by fastforce
  from processEventLog_opened [OF None l] assms have
    e: "ex = ex'" and a: "acts = [ApiOpen (Name api) (RecordNumber state), Log (DebugOpened (Name api))]
       @ body @ (if ex' = StillRunning then [] else deferred api)" by simp_all
  show ?thesis
  proof (cases "ex' = StillRunning")
    case True
    with None l e a running show ?thesis by simp
  next
    case False
    moreover from eventLoop_not_OpenFailed [OF l] have "ex' \<noteq> OpenFailed" .
    ultimately have "ex' = LoopReturned \<or> ex' = LoopBroke" by (cases ex') auto
    with None l e a False left show ?thesis by simp
  qed
qed

subsection \<open>Unfolding the example runs of a worker\<close>

lemmas scenario = App_def record_no_def yields_def
  zero_EventLogState_def processEventLog_def iteration_def deferred_def UTC_def time_Second_def

subsection \<open>\<^verbatim>\<open>Setup\<close> and \<^verbatim>\<open>Stop\<close>\<close>

lemma Setup_done_chan:
  "Setup newCheckpoint listen new eb0 = (err, eb) \<Longrightarrow>
   done_chan eb = Some ChanOpen \<and> client eb = Some 0"
  by (auto simp: Setup_def Let_def split: sum.splits option.splits prod.splits if_splits)

lemma Stop_open:
  "done_chan eb = Some ChanOpen \<Longrightarrow> client eb = Some closes \<Longrightarrow>
   Stop eb = Inr (eb\<lparr>logged := logged eb @ [InfoStopping], done_chan := Some ChanClosed,
                    client := Some (Suc closes)\<rparr>)"
  by (simp add: Stop_def close_chan_def Let_def)

lemma Stop_closed:
  "done_chan eb = Some ChanClosed \<Longrightarrow> Stop eb = Inl CloseOfClosedChannel"
  by (simp add: Stop_def close_chan_def Let_def)

subsection \<open>Steps of the system preserve its invariant\<close>

lemma unfinished_nonneg: "0 \<le> unfinished ts"
  by (simp add: unfinished_def)

lemma unfinished_append: "unfinished (ts @ [t]) = unfinished ts + (if finished t then 0 else 1)"
  by (simp add: unfinished_def)

lemma unfinished_zero: "unfinished ts = 0 \<longleftrightarrow> (\<forall>t \<in> set ts. finished t)"
  by (simp add: unfinished_def filter_empty_conv)

lemma unfinished_update:
  assumes "i < length ts"
  shows "unfinished (ts[i := t]) =
         unfinished ts - (if finished (ts ! i) then 0 else 1) + (if finished t then 0 else 1)"
proof -
  have 1: "ts[i := t] = take i ts @ t # drop (Suc i) ts"
    using assms by (rule upd_conv_take_nth_drop)
  have 2: "ts = take i ts @ ts ! i # drop (Suc i) ts"
    using assms by (rule id_take_nth_drop)
  have "unfinished (take i ts @ t # drop (Suc i) ts) =
        unfinished (take i ts @ ts ! i # drop (Suc i) ts)
        - (if finished (ts ! i) then 0 else 1) + (if finished t then 0 else 1)"
    by (simp add: unfinished_def)
  with 1 2 show ?thesis by metis
qed

lemma wf_thread_head:
  assumes "wf_thread (ex, a # r)"
  shows "wf_thread (ex, r)"
    and "a \<noteq> CheckpointShutdown"
    and "a = WgDone \<Longrightarrow> ex \<noteq> StillRunning \<and> r = []"
    and "a \<noteq> WgDone \<Longrightarrow> wg_delta a = 0 \<and> \<not> finished (ex, r)"
proof -
  show "wf_thread (ex, r)"
  proof (cases "ex = StillRunning")
    case True
    with assms show ?thesis by (simp add: wf_thread_def)
  next
    case False
    with assms obtain p where p: "a # r = p @ [WgDone]" "\<forall>x \<in> set p. plain x"
      by (auto simp: wf_thread_def)
    show ?thesis
    proof (cases p)
      case Nil
      with p False show ?thesis by (simp add: wf_thread_def)
    next
      case (Cons b q)
      with p False show ?thesis by (auto simp: wf_thread_def)
    qed
  qed
  show "a \<noteq> CheckpointShutdown"
  proof (cases "ex = StillRunning")
    case True
    with assms show ?thesis by (auto simp: wf_thread_def plain_def)
  next
    case False
    with assms obtain p where p: "a # r = p @ [WgDone]" "\<forall>x \<in> set p. plain x"
      by (auto simp: wf_thread_def)
    then show ?thesis by (cases p) (auto simp: plain_def)
  qed
  show "ex \<noteq> StillRunning \<and> r = []" if "a = WgDone"
  proof (cases "ex = StillRunning")
    case True
    with assms that show ?thesis by (auto simp: wf_thread_def plain_def)
  next
    case False
    with assms obtain p where p: "a # r = p @ [WgDone]" "\<forall>x \<in> set p. plain x"
      by (auto simp: wf_thread_def)
    with that False show ?thesis by (cases p) (auto simp: plain_def)
  qed
  show "wg_delta a = 0 \<and> \<not> finished (ex, r)" if "a \<noteq> WgDone"
  proof (cases "ex = StillRunning")
    case True
    with assms that show ?thesis by (auto simp: wf_thread_def plain_def finished_def)
  next
    case False
    with assms obtain p where p: "a # r = p @ [WgDone]" "\<forall>x \<in> set p. plain x"
      by (auto simp: wf_thread_def)
    with that False show ?thesis by (cases p) (auto simp: plain_def finished_def)
  qed
qed

lemma unfinished_pos:
  assumes "i < length ts" and "\<not> finished (ts ! i)"
  shows "1 \<le> unfinished ts"
proof -
  from assms have "\<not> (\<forall>t \<in> set ts. finished t)" by (metis nth_mem)
  then have "unfinished ts \<noteq> 0" by (simp add: unfinished_zero)
  with unfinished_nonneg [of ts] show ?thesis by simp
qed

lemma not_finished_Cons: "\<not> finished (ex, a # r)"
  by (simp add: finished_def)

lemma inv_wg_nonneg:
  assumes "inv s"
  shows "0 \<le> wg s"
proof -
  from assms consider "spawning s" | "joined s" | "returned s" by (auto simp: inv_def)
  then show ?thesis
  proof cases
    case 1
    then show ?thesis using unfinished_nonneg [of "threads s"] by (auto simp: spawning_def)
  next
    case 2
    then show ?thesis by (simp add: joined_def)
  next
    case 3
    then show ?thesis by (simp add: returned_def)
  qed
qed

lemma inv_worker_spawning:
  assumes "inv s" and "i < length (threads s)" and "threads s ! i = (ex, a # r)"
  shows "spawning s"
proof -
  from assms(2,3) have "(ex, a # r) \<in> set (threads s)" by (metis nth_mem)
  moreover have "\<not> finished (ex, a # r)" by (rule not_finished_Cons)
  ultimately have "\<not> (\<forall>t \<in> set (threads s). finished t)" by blast
  with assms(1) show ?thesis by (auto simp: inv_def joined_def returned_def)
qed

lemma step_Do:
  assumes "inv s" and "main s = Do a # m"
  shows "step Coordinator s =
         s\<lparr>main := m, wg := wg s + wg_delta a, history := history s @ [(Coordinator, a)]\<rparr>"
proof -
  from assms(1) have f: "fault s = None" by (simp add: inv_def)
  have "0 \<le> wg_delta a"
  proof -
    from assms consider "spawning s" | "joined s" by (auto simp: inv_def returned_def)
    then show ?thesis
    proof cases
      case 1
      with assms(2) show ?thesis by (auto simp: spawning_def)
    next
      case 2
      with assms(2) show ?thesis by (simp add: joined_def)
    qed
  qed
  with inv_wg_nonneg [OF assms(1)] have "\<not> wg s + wg_delta a < 0" by simp
  with f assms(2) show ?thesis by (simp add: step_def act_def)
qed

lemma step_Go:
  assumes "inv s" and "main s = Go t # m"
  shows "step Coordinator s = s\<lparr>main := m, threads := threads s @ [t]\<rparr>"
  using assms by (simp add: step_def inv_def)

lemma step_Wait:
  assumes "inv s" and "main s = Wait # m"
  shows "step Coordinator s = (if wg s = 0 then s\<lparr>main := m\<rparr> else s)"
  using assms by (simp add: step_def inv_def)

lemma step_Nil:
  assumes "main s = []"
  shows "step Coordinator s = s"
  using assms by (simp add: step_def)

lemma step_Worker_idle:
  assumes "\<not> i < length (threads s) \<or> snd (threads s ! i) = []"
  shows "step (Worker i) s = s"
  using assms by (cases "threads s ! i") (auto simp: step_def)

lemma step_Worker:
  assumes "inv s" and "i < length (threads s)" and "threads s ! i = (ex, a # r)"
  shows "step (Worker i) s =
         s\<lparr>threads := (threads s)[i := (ex, r)], wg := wg s + wg_delta a,
           history := history s @ [(Worker i, a)]\<rparr>"
proof -
  from assms(1) have f: "fault s = None" by (simp add: inv_def)
  from assms have wf: "wf_thread (ex, a # r)" by (metis inv_def nth_mem)
  have "\<not> wg s + wg_delta a < 0"
  proof (cases "a = WgDone")
    case True
    from inv_worker_spawning [OF assms] obtain pending where
      "wg s = (if pending then 1 else 0) + unfinished (threads s)"
      by (auto simp: spawning_def)
    moreover have "1 \<le> unfinished (threads s)"
      using assms(2,3) by (intro unfinished_pos [of i]) (simp_all add: not_finished_Cons)
    ultimately show ?thesis using True by simp
  next
    case False
    with wf_thread_head(4) [OF wf] inv_wg_nonneg [OF assms(1)] show ?thesis by simp
  qed
  with f assms(2,3) show ?thesis by (simp add: step_def act_def)
qed

lemma no_shutdown_snoc:
  "no_shutdown (h @ [(who, a)]) \<longleftrightarrow> no_shutdown h \<and> a \<noteq> CheckpointShutdown"
  unfolding no_shutdown_def by (simp add: ball_Un) blast

lemma spawningI:
  "main_ok pending (main s) \<Longrightarrow> wg s = (if pending then 1 else 0) + unfinished (threads s) \<Longrightarrow>
   no_shutdown (history s) \<Longrightarrow> spawning s"
  unfolding spawning_def by blast

lemma spawningE:
  assumes "spawning s"
  obtains pending where "main_ok pending (main s)"
    "wg s = (if pending then 1 else 0) + unfinished (threads s)" "no_shutdown (history s)"
  using assms unfolding spawning_def by blast

lemma invI:
  "fault s = None \<Longrightarrow> \<forall>t \<in> set (threads s). wf_thread t \<Longrightarrow>
   spawning s \<or> joined s \<or> returned s \<Longrightarrow> inv s"
  unfolding inv_def by blast

lemma inv_phase:
  assumes "inv s"
  obtains (spawning) "spawning s" | (joined) "joined s" | (returned) "returned s"
  using assms unfolding inv_def by blast

lemma inv_step_Coordinator:
  assumes "inv s"
  shows "inv (step Coordinator s)"
proof (cases "main s")
  case Nil
  with assms show ?thesis by (simp add: step_Nil)
next
  case (Cons x m)
  from assms have f: "fault s = None" and wf: "\<forall>t \<in> set (threads s). wf_thread t"
    unfolding inv_def by blast+
  show ?thesis
  proof (cases x)
    case (Do a)
    with Cons have m: "main s = Do a # m" by simp
    note st = step_Do [OF assms m]
    from assms show ?thesis
    proof (cases rule: inv_phase)
      case spawning
      then obtain pending where ok: "main_ok pending (main s)"
        and w: "wg s = (if pending then 1 else 0) + unfinished (threads s)"
        and h: "no_shutdown (history s)"
        by (rule spawningE)
      from ok m have np: "\<not> pending" and a: "a \<noteq> CheckpointShutdown"
        and d: "wg_delta a = 0 \<or> wg_delta a = 1" and ok': "main_ok (wg_delta a = 1) m"
        by simp_all
      from w np d have w': "wg s + wg_delta a =
          (if wg_delta a = 1 then 1 else 0) + unfinished (threads s)" by auto
      from h a have h': "no_shutdown (history s @ [(Coordinator, a)])"
        by (simp add: no_shutdown_snoc)
      have "spawning (step Coordinator s)"
        unfolding st by (rule spawningI [of "wg_delta a = 1"]) (simp_all add: ok' w' h')
      with f wf show ?thesis by (intro invI) (simp_all add: st)
    next
      case joined
      with m have a: "a = CheckpointShutdown" and m': "m = []"
        and w: "wg s = 0" and fin: "\<forall>t \<in> set (threads s). finished t"
        and h: "no_shutdown (history s)"
        unfolding joined_def by simp_all
      have "returned (step Coordinator s)"
        unfolding st returned_def using a m' w fin h by simp
      with f wf show ?thesis by (intro invI) (simp_all add: st)
    next
      case returned
      with m show ?thesis unfolding returned_def by simp
    qed
  next
    case (Go t)
    with Cons have m: "main s = Go t # m" by simp
    note st = step_Go [OF assms m]
    from assms show ?thesis
    proof (cases rule: inv_phase)
      case spawning
      then obtain pending where ok: "main_ok pending (main s)"
        and w: "wg s = (if pending then 1 else 0) + unfinished (threads s)"
        and h: "no_shutdown (history s)"
        by (rule spawningE)
      from ok m have p: "pending" and t: "wf_thread t" "\<not> finished t"
        and ok': "main_ok False m"
        by simp_all
      from w p t have w': "wg s = (if False then 1 else 0) + unfinished (threads s @ [t])"
        by (simp add: unfinished_append)
      have "spawning (step Coordinator s)"
        unfolding st by (rule spawningI [of False]) (simp_all add: ok' w' h)
      with f wf t show ?thesis by (intro invI) (simp_all add: st)
    next
      case joined
      with m show ?thesis unfolding joined_def by simp
    next
      case returned
      with m show ?thesis unfolding returned_def by simp
    qed
  next
    case Wait
    with Cons have m: "main s = Wait # m" by simp
    note st = step_Wait [OF assms m]
    from assms show ?thesis
    proof (cases rule: inv_phase)
      case spawning
      then obtain pending where ok: "main_ok pending (main s)"
        and w: "wg s = (if pending then 1 else 0) + unfinished (threads s)"
        and h: "no_shutdown (history s)"
        by (rule spawningE)
      from ok m have np: "\<not> pending" and m': "m = [Do CheckpointShutdown]" by simp_all
      show ?thesis
      proof (cases "wg s = 0")
        case True
        with w np have "\<forall>t \<in> set (threads s). finished t" by (simp add: unfinished_zero)
        with True h m' have "joined (step Coordinator s)"
          unfolding st joined_def by simp
        with f wf True show ?thesis by (intro invI) (simp_all add: st)
      next
        case False
        with assms show ?thesis by (simp add: st)
      qed
    next
      case joined
      with m show ?thesis unfolding joined_def by simp
    next
      case returned
      with m show ?thesis unfolding returned_def by simp
    qed
  qed
qed

lemma inv_step_Worker:
  assumes "inv s"
  shows "inv (step (Worker i) s)"
proof (cases "i < length (threads s) \<and> snd (threads s ! i) \<noteq> []")
  case False
  then have "step (Worker i) s = s" by (intro step_Worker_idle) blast
  with assms show ?thesis by simp
next
  case True
  then obtain ex a r where i: "i < length (threads s)" and t: "threads s ! i = (ex, a # r)"
    by (cases "threads s ! i"; cases "snd (threads s ! i)") auto
  note st = step_Worker [OF assms i t]
  from assms have f: "fault s = None" and wfs: "\<forall>t \<in> set (threads s). wf_thread t"
    unfolding inv_def by blast+
  from wfs i t have wf: "wf_thread (ex, a # r)" by (metis nth_mem)
  from inv_worker_spawning [OF assms i t] obtain pending where ok: "main_ok pending (main s)"
    and w: "wg s = (if pending then 1 else 0) + unfinished (threads s)"
    and h: "no_shutdown (history s)"
    by (rule spawningE)
  have wfs': "\<forall>t \<in> set ((threads s)[i := (ex, r)]). wf_thread t"
    using wfs wf_thread_head(1) [OF wf] by (metis insertE set_update_subset_insert subsetD)
  have u: "unfinished ((threads s)[i := (ex, r)]) =
           unfinished (threads s) - 1 + (if finished (ex, r) then 0 else 1)"
    using unfinished_update [OF i, of "(ex, r)"] t by (simp add: not_finished_Cons)
  have w': "wg s + wg_delta a =
        (if pending then 1 else 0) + unfinished ((threads s)[i := (ex, r)])"
  proof (cases "a = WgDone")
    case True
    with wf_thread_head(3) [OF wf] have "finished (ex, r)" by (simp add: finished_def)
    with u w True show ?thesis by simp
  next
    case False
    with wf_thread_head(4) [OF wf] u w show ?thesis by simp
  qed
  from h wf_thread_head(2) [OF wf] have h': "no_shutdown (history s @ [(Worker i, a)])"
    by (simp add: no_shutdown_snoc)
  have "spawning (step (Worker i) s)"
    unfolding st by (rule spawningI [of pending]) (simp_all add: ok w' h')
  with f wfs' show ?thesis by (intro invI) (simp_all add: st)
qed

lemma inv_step: "inv s \<Longrightarrow> inv (step who s)"
  by (cases who) (simp_all add: inv_step_Coordinator inv_step_Worker)

lemma exec_simps [simp]: "exec [] s = s" "exec (who # schedule) s = exec schedule (step who s)"
  by (simp_all add: exec_def)

lemma exec_append: "exec (a @ b) s = exec b (exec a s)"
  by (simp add: exec_def)

lemma inv_exec: "inv s \<Longrightarrow> inv (exec schedule s)"
  by (induction schedule arbitrary: s) (simp_all add: inv_step)

lemma inv_start:
  assumes "main_ok False prog"
  shows "inv (start prog)"
proof (rule invI)
  show "fault (start prog) = None" by (simp add: start_def)
  show "\<forall>t \<in> set (threads (start prog)). wf_thread t" by (simp add: start_def)
  have "spawning (start prog)"
    by (rule spawningI [of False])
       (simp_all add: start_def assms unfinished_def no_shutdown_def)
  then show "spawning (start prog) \<or> joined (start prog) \<or> returned (start prog)" by blast
qed

subsection \<open>The program of \<^verbatim>\<open>Run\<close> is well-formed\<close>

lemma iteration_plain: "\<forall>a \<in> set (snd (iteration conv name t)). plain a"
  by (cases rule: iteration_cases [of t conv name]) (simp_all add: plain_def)

lemma eventLoop_plain:
  "eventLoop conv name ticks = (ex, acts) \<Longrightarrow> \<forall>a \<in> set acts. plain a"
proof (induction ticks arbitrary: ex acts)
  case Nil
  then show ?case by simp
next
  case (Cons t ticks)
  from eventLoop_iterations [OF Cons.prems] show ?case
  proof
    assume "\<exists>ex' rest. fst (iteration conv name t) = Continue \<and>
      eventLoop conv name ticks = (ex', rest) \<and> ex = ex' \<and>
      acts = snd (iteration conv name t) @ rest"
    then obtain ex' rest where r: "eventLoop conv name ticks = (ex', rest)"
      and a: "acts = snd (iteration conv name t) @ rest" by blast
    from Cons.IH [OF r] iteration_plain [of conv name t] show ?thesis
      unfolding a by (simp add: ball_Un)
  next
    assume "fst (iteration conv name t) \<noteq> Continue \<and> ex \<noteq> StillRunning \<and>
      acts = snd (iteration conv name t)"
    then show ?thesis using iteration_plain [of conv name t] by simp
  qed
qed

lemma deferred_shape:
  "\<exists>p. (deferred api :: ('p, 'e) action list) = p @ [WgDone] \<and> (\<forall>a \<in> set p. plain a)"
proof (cases "Close api")
  case None
  then have "(deferred api :: ('p, 'e) action list) =
      [Log InfoStopProcessing, ApiClose (Name api)] @ [WgDone]"
    by (simp add: deferred_def)
  moreover have "\<forall>a \<in> set ([Log InfoStopProcessing, ApiClose (Name api)] :: ('p, 'e) action list).
      plain a" by (simp add: plain_def)
  ultimately show ?thesis by blast
next
  case (Some err)
  then have "(deferred api :: ('p, 'e) action list) =
      [Log InfoStopProcessing, ApiClose (Name api), Log (WarnCloseError (Name api) err)] @ [WgDone]"
    by (simp add: deferred_def)
  moreover have "\<forall>a \<in> set ([Log InfoStopProcessing, ApiClose (Name api),
      Log (WarnCloseError (Name api) err)] :: ('p, 'e) action list).
      plain a" by (simp add: plain_def)
  ultimately show ?thesis by blast
qed

lemma processEventLog_thread:
  "wf_thread (processEventLog conv api state ticks) \<and>
   \<not> finished (processEventLog conv api state ticks)"
proof -
  obtain ex acts where run: "processEventLog conv api state ticks = (ex, acts)" by fastforce
  from run have "wf_thread (ex, acts) \<and> \<not> finished (ex, acts)"
  proof (cases rule: processEventLog_cases)
    case (open_failed err)
    have "acts = [ApiOpen (Name api) (RecordNumber state), Log (WarnOpenError (Name api) err)]
      @ [WgDone]" using open_failed(3) by simp
    moreover have "\<forall>a \<in> set ([ApiOpen (Name api) (RecordNumber state),
      Log (WarnOpenError (Name api) err)] :: ('a, 'b) action list). plain a"
      by (simp add: plain_def)
    ultimately have "\<exists>p. acts = p @ [WgDone] \<and> (\<forall>a \<in> set p. plain a)" by blast
    with open_failed(2,3) show ?thesis by (simp add: wf_thread_def finished_def)
  next
    case (running body)
    from eventLoop_plain [OF running(2)] running(3,4) show ?thesis
      by (simp add: wf_thread_def finished_def plain_def)
  next
    case (left body)
    from deferred_shape [of api] obtain p where
      p: "(deferred api :: ('a, 'b) action list) = p @ [WgDone]" "\<forall>a \<in> set p. plain a"
      by blast
    let ?q = "[ApiOpen (Name api) (RecordNumber state), Log (DebugOpened (Name api))] @ body @ p"
    have "acts = ?q @ [WgDone]" using left(4) p(1) by simp
    moreover have "\<forall>a \<in> set ?q. plain a"
      using eventLoop_plain [OF left(2)] p(2) by (simp add: plain_def ball_Un)
    ultimately have "\<exists>q. acts = q @ [WgDone] \<and> (\<forall>a \<in> set q. plain a)" by blast
    moreover from left(3) have "ex \<noteq> StillRunning" by auto
    moreover from left(4) have "acts \<noteq> []" by simp
    ultimately show ?thesis by (simp add: wf_thread_def finished_def)
  qed
  with run show ?thesis by simp
qed

lemma main_ok_spawn_all:
  "main_ok False (spawn_all conv ps script i logs @ [Wait, Do CheckpointShutdown])"
proof (induction logs arbitrary: i)
  case Nil
  show ?case by simp
next
  case (Cons log logs)
  then show ?case by (simp add: spawn_steps_def processEventLog_thread)
qed

lemma gos_append [simp]: "gos (a @ b) = gos a @ gos b"
  by (induction a rule: gos.induct) simp_all

lemma gos_spawn_all:
  "gos (spawn_all conv ps script i logs) =
   map (\<lambda>(j, log). processEventLog conv log (map_index ps (Name log)) (script j))
     (enumerate i logs)"
  by (induction logs arbitrary: i) (simp_all add: spawn_steps_def)

lemma Run_program:
  assumes "Run conv script eb = Inr prog"
  obtains cp where "checkpoint eb = Some cp"
    "prog = [Do CheckpointStates, Do (PublishedAdd ''total'' 0), Do (IgnoredAdd ''total'' 0)] @
            spawn_all conv (States cp) script 0 (eventLogs eb) @ [Wait, Do CheckpointShutdown]"
  using assms by (cases "checkpoint eb") (auto simp: Run_def)

lemma Run_main_ok:
  assumes "Run conv script eb = Inr prog"
  shows "main_ok False prog"
  using assms by (rule Run_program) (simp add: main_ok_spawn_all)

lemma Run_gos:
  assumes "Run conv script eb = Inr prog" and "checkpoint eb = Some cp"
  shows "length (gos prog) = length (eventLogs eb)"
    and "j < length (eventLogs eb) \<Longrightarrow>
         gos prog ! j =
           processEventLog conv (eventLogs eb ! j)
             (map_index (States cp) (Name (eventLogs eb ! j))) (script j)"
proof -
  from assms have p: "gos prog = map (\<lambda>(j, log). processEventLog conv log (map_index (States cp) (Name log)) (script j))
     (enumerate 0 (eventLogs eb))"
    by (auto elim!: Run_program simp: gos_spawn_all)
  show "length (gos prog) = length (eventLogs eb)" by (simp add: p)
  show "gos prog ! j =
           processEventLog conv (eventLogs eb ! j)
             (map_index (States cp) (Name (eventLogs eb ! j))) (script j)"
    if "j < length (eventLogs eb)"
    using that by (simp add: p nth_enumerate_eq)
qed

subsection \<open>Every goroutine performs its own actions\<close>

lemma worker_history_snoc:
  "worker_history j (h @ [(who, a)]) = worker_history j h @ (if who = Worker j then [a] else [])"
  by (cases who) (auto simp: worker_history_def)

lemma worker_history_Nil [simp]: "worker_history j [] = []"
  by (simp add: worker_history_def)

lemma drop_eq_Cons:
  assumes "drop n xs = t # ys"
  shows "n < length xs" and "xs ! n = t" and "drop (Suc n) xs = ys"
proof -
  from assms show n: "n < length xs" by (metis drop_all list.distinct(1) not_le)
  from assms show "xs ! n = t" by (metis nth_via_drop)
  from assms n show "drop (Suc n) xs = ys" by (metis Cons_nth_drop_Suc list.inject)
qed

lemma tracksI:
  "length (threads s) \<le> length (gos prog) \<Longrightarrow>
   gos (main s) = drop (length (threads s)) (gos prog) \<Longrightarrow>
   (\<And>j. j < length (threads s) \<Longrightarrow> fst (threads s ! j) = fst (gos prog ! j)) \<Longrightarrow>
   (\<And>j. j < length (threads s) \<Longrightarrow>
      worker_history j (history s) @ snd (threads s ! j) = snd (gos prog ! j)) \<Longrightarrow>
   (\<And>j. length (threads s) \<le> j \<Longrightarrow> worker_history j (history s) = []) \<Longrightarrow>
   tracks prog s"
  unfolding tracks_def by blast

lemma tracksD:
  assumes "tracks prog s"
  shows "length (threads s) \<le> length (gos prog)"
    and "gos (main s) = drop (length (threads s)) (gos prog)"
    and "\<And>j. j < length (threads s) \<Longrightarrow> fst (threads s ! j) = fst (gos prog ! j)"
    and "\<And>j. j < length (threads s) \<Longrightarrow>
      worker_history j (history s) @ snd (threads s ! j) = snd (gos prog ! j)"
    and "\<And>j. length (threads s) \<le> j \<Longrightarrow> worker_history j (history s) = []"
  using assms unfolding tracks_def by blast+

lemma tracks_step_Coordinator:
  assumes "inv s" and tr: "tracks prog s"
  shows "tracks prog (step Coordinator s)"
proof (cases "main s")
  case Nil
  with tr show ?thesis by (simp add: step_Nil)
next
  case (Cons x m)
  show ?thesis
  proof (cases x)
    case (Do a)
    with Cons have m: "main s = Do a # m" by simp
    note st = step_Do [OF assms(1) m]
    show ?thesis unfolding st
    proof (rule tracksI)
      show "length (threads (s\<lparr>main := m, wg := wg s + wg_delta a,
              history := history s @ [(Coordinator, a)]\<rparr>)) \<le> length (gos prog)"
        using tracksD(1) [OF tr] by simp
      show "gos (main (s\<lparr>main := m, wg := wg s + wg_delta a,
              history := history s @ [(Coordinator, a)]\<rparr>)) =
            drop (length (threads (s\<lparr>main := m, wg := wg s + wg_delta a,
              history := history s @ [(Coordinator, a)]\<rparr>))) (gos prog)"
        using tracksD(2) [OF tr] m by simp
    qed (simp_all add: worker_history_snoc tracksD(3-5) [OF tr])
  next
    case (Go t)
    with Cons have m: "main s = Go t # m" by simp
    note st = step_Go [OF assms(1) m]
    let ?n = "length (threads s)"
    from tracksD(2) [OF tr] m have d: "drop ?n (gos prog) = t # gos m" by simp
    note dd = drop_eq_Cons [OF d]
    show ?thesis unfolding st
    proof (rule tracksI)
      show "length (threads (s\<lparr>main := m, threads := threads s @ [t]\<rparr>)) \<le> length (gos prog)"
        using dd(1) by simp
      show "gos (main (s\<lparr>main := m, threads := threads s @ [t]\<rparr>)) =
            drop (length (threads (s\<lparr>main := m, threads := threads s @ [t]\<rparr>))) (gos prog)"
        using dd(3) by simp
    next
      fix j assume "j < length (threads (s\<lparr>main := m, threads := threads s @ [t]\<rparr>))"
      then have j: "j < ?n \<or> j = ?n" by auto
      from j show "fst (threads (s\<lparr>main := m, threads := threads s @ [t]\<rparr>) ! j) =
                   fst (gos prog ! j)"
        using tracksD(3) [OF tr] dd(2) by (auto simp: nth_append)
      from j show "worker_history j (history (s\<lparr>main := m, threads := threads s @ [t]\<rparr>)) @
                   snd (threads (s\<lparr>main := m, threads := threads s @ [t]\<rparr>) ! j) =
                   snd (gos prog ! j)"
        using tracksD(4) [OF tr] tracksD(5) [OF tr, of ?n] dd(2) by (auto simp: nth_append)
    next
      fix j assume "length (threads (s\<lparr>main := m, threads := threads s @ [t]\<rparr>)) \<le> j"
      then show "worker_history j (history (s\<lparr>main := m, threads := threads s @ [t]\<rparr>)) = []"
        using tracksD(5) [OF tr, of j] by simp
    qed
  next
    case Wait
    with Cons have m: "main s = Wait # m" by simp
    note st = step_Wait [OF assms(1) m]
    show ?thesis
    proof (cases "wg s = 0")
      case True
      show ?thesis unfolding st
      proof (rule tracksI)
        show "gos (main (if wg s = 0 then s\<lparr>main := m\<rparr> else s)) =
              drop (length (threads (if wg s = 0 then s\<lparr>main := m\<rparr> else s))) (gos prog)"
          using tracksD(2) [OF tr] m True by simp
      qed (simp_all add: True tracksD [OF tr])
    next
      case False
      with tr show ?thesis by (simp add: st)
    qed
  qed
qed

lemma tracks_step_Worker:
  assumes "inv s" and tr: "tracks prog s"
  shows "tracks prog (step (Worker i) s)"
proof (cases "i < length (threads s) \<and> snd (threads s ! i) \<noteq> []")
  case False
  then have "step (Worker i) s = s" by (intro step_Worker_idle) blast
  with tr show ?thesis by simp
next
  case True
  then obtain ex a r where i: "i < length (threads s)" and t: "threads s ! i = (ex, a # r)"
    by (cases "threads s ! i"; cases "snd (threads s ! i)") auto
  note st = step_Worker [OF assms(1) i t]
  let ?s = "s\<lparr>threads := (threads s)[i := (ex, r)], wg := wg s + wg_delta a,
             history := history s @ [(Worker i, a)]\<rparr>"
  show ?thesis unfolding st
  proof (rule tracksI)
    show "length (threads ?s) \<le> length (gos prog)" using tracksD(1) [OF tr] by simp
    show "gos (main ?s) = drop (length (threads ?s)) (gos prog)"
      using tracksD(2) [OF tr] by simp
  next
    fix j assume "j < length (threads ?s)"
    then have j: "j < length (threads s)" by simp
    show "fst (threads ?s ! j) = fst (gos prog ! j)"
      using tracksD(3) [OF tr j] tracksD(3) [OF tr i] t j by (cases "j = i") simp_all
    show "worker_history j (history ?s) @ snd (threads ?s ! j) = snd (gos prog ! j)"
      using tracksD(4) [OF tr j] tracksD(4) [OF tr i] t j
      by (cases "j = i") (simp_all add: worker_history_snoc)
  next
    fix j assume "length (threads ?s) \<le> j"
    then have "length (threads s) \<le> j" by simp
    with i tracksD(5) [OF tr, of j] show "worker_history j (history ?s) = []"
      by (simp add: worker_history_snoc)
  qed
qed

lemma tracks_step: "inv s \<Longrightarrow> tracks prog s \<Longrightarrow> tracks prog (step who s)"
  by (cases who) (simp_all add: tracks_step_Coordinator tracks_step_Worker)

lemma tracks_exec: "inv s \<Longrightarrow> tracks prog s \<Longrightarrow> tracks prog (exec schedule s)"
  by (induction schedule arbitrary: s) (simp_all add: inv_step tracks_step)

lemma tracks_start: "tracks prog (start prog)"
  by (simp add: tracks_def start_def)

subsection \<open>Progress of the coordinator and of a worker\<close>

lemma gos_tl: "gos m = [] \<Longrightarrow> gos (tl m) = []"
  by (induction m rule: gos.induct) simp_all

lemma step_Coordinator_main:
  assumes "inv s"
  shows "(main (step Coordinator s) = tl (main s) \<and> threads (step Coordinator s) = threads s @ gos (take 1 (main s)))
       \<or> (step Coordinator s = s \<and> gos (main s) = [])"
proof (cases "main s")
  case Nil
  then show ?thesis by (simp add: step_Nil)
next
  case (Cons x m)
  show ?thesis
  proof (cases x)
    case (Do a)
    with Cons have m: "main s = Do a # m" by simp
    show ?thesis by (simp add: step_Do [OF assms m] m)
  next
    case (Go t)
    with Cons have m: "main s = Go t # m" by simp
    show ?thesis by (simp add: step_Go [OF assms m] m)
  next
    case Wait
    with Cons have m: "main s = Wait # m" by simp
    from assms have "gos (main s) = []"
    proof (cases rule: inv_phase)
      case spawning
      then obtain pending where "main_ok pending (main s)" by (rule spawningE)
      with m show ?thesis by simp
    next
      case joined
      then show ?thesis by (simp add: joined_def)
    next
      case returned
      then show ?thesis by (simp add: returned_def)
    qed
    then show ?thesis by (simp add: step_Wait [OF assms m] m)
  qed
qed

lemma gos_Nil_exec_Coordinator:
  "inv s \<Longrightarrow> gos (main s) = [] \<Longrightarrow> gos (main (exec (replicate k Coordinator) s)) = []"
proof (induction k arbitrary: s)
  case 0
  then show ?case by simp
next
  case (Suc k)
  from step_Coordinator_main [OF Suc.prems(1)] Suc.prems(2)
  have "gos (main (step Coordinator s)) = []" by (auto simp: gos_tl)
  with Suc.IH [OF inv_step [OF Suc.prems(1)]] show ?case by simp
qed

lemma spawns_all:
  "inv s \<Longrightarrow> length (main s) \<le> k \<Longrightarrow> gos (main (exec (replicate k Coordinator) s)) = []"
proof (induction k arbitrary: s)
  case 0
  then show ?case by simp
next
  case (Suc k)
  from step_Coordinator_main [OF Suc.prems(1)] show ?case
  proof
    assume "main (step Coordinator s) = tl (main s) \<and>
            threads (step Coordinator s) = threads s @ gos (take 1 (main s))"
    with Suc.prems(2) have "length (main (step Coordinator s)) \<le> k" by simp
    with Suc.IH [OF inv_step [OF Suc.prems(1)]] show ?thesis by simp
  next
    assume "step Coordinator s = s \<and> gos (main s) = []"
    with gos_Nil_exec_Coordinator [OF Suc.prems(1), of "Suc k"] show ?thesis by simp
  qed
qed

lemma worker_completes:
  "inv s \<Longrightarrow> j < length (threads s) \<Longrightarrow> length (snd (threads s ! j)) \<le> k \<Longrightarrow>
   j < length (threads (exec (replicate k (Worker j)) s)) \<and>
   snd (threads (exec (replicate k (Worker j)) s) ! j) = []"
proof (induction k arbitrary: s)
  case 0
  then show ?case by simp
next
  case (Suc k)
  show ?case
  proof (cases "snd (threads s ! j)")
    case Nil
    then have "step (Worker j) s = s" by (intro step_Worker_idle) simp
    with Suc.IH [OF Suc.prems(1,2)] Nil show ?thesis by simp
  next
    case (Cons a r)
    then have t: "threads s ! j = (fst (threads s ! j), a # r)" by (metis prod.collapse)
    note st = step_Worker [OF Suc.prems(1,2) t]
    from Suc.prems(2,3) Cons have
      "j < length (threads (step (Worker j) s))"
      "length (snd (threads (step (Worker j) s) ! j)) \<le> k"
      by (simp_all add: st)
    with Suc.IH [OF inv_step [OF Suc.prems(1)]] show ?thesis by simp
  qed
qed

lemma joins:
  "inv s \<Longrightarrow> gos (main s) = [] \<Longrightarrow> \<forall>t \<in> set (threads s). finished t \<Longrightarrow>
   length (main s) \<le> k \<Longrightarrow> main (exec (replicate k Coordinator) s) = []"
proof (induction k arbitrary: s)
  case 0
  then show ?case by simp
next
  case (Suc k)
  show ?case
  proof (cases "main s")
    case Nil
    with Suc.IH [of s] Suc.prems show ?thesis by (simp add: step_Nil)
  next
    case (Cons x m)
    have "main (step Coordinator s) = m \<and> threads (step Coordinator s) = threads s"
    proof (cases x)
      case (Do a)
      with Cons have m: "main s = Do a # m" by simp
      show ?thesis by (simp add: step_Do [OF Suc.prems(1) m])
    next
      case (Go t)
      with Cons Suc.prems(2) show ?thesis by simp
    next
      case Wait
      with Cons have m: "main s = Wait # m" by simp
      from Suc.prems(1) have "wg s = 0"
      proof (cases rule: inv_phase)
        case spawning
        then obtain pending where "main_ok pending (main s)"
          "wg s = (if pending then 1 else 0) + unfinished (threads s)" by (rule spawningE)
        with m Suc.prems(3) show ?thesis by (simp add: unfinished_zero)
      next
        case joined
        then show ?thesis by (simp add: joined_def)
      next
        case returned
        then show ?thesis by (simp add: returned_def)
      qed
      then show ?thesis by (simp add: step_Wait [OF Suc.prems(1) m])
    qed
    moreover from this Cons Suc.prems(2) have "gos (main (step Coordinator s)) = []"
      using gos_tl [of "main s"] by simp
    moreover from Cons Suc.prems(4) have "length m \<le> k" by simp
    ultimately show ?thesis
      using Suc.IH [OF inv_step [OF Suc.prems(1)], of Coordinator] Suc.prems(3) by simp
  qed
qed

lemma tracks_prefix:
  assumes "tracks prog s" and "j < length (gos prog)"
  shows "prefix (worker_history j (history s)) (snd (gos prog ! j))"
proof (cases "j < length (threads s)")
  case True
  from tracksD(4) [OF assms(1) True] show ?thesis by (metis prefixI)
next
  case False
  with tracksD(5) [OF assms(1), of j] show ?thesis by simp
qed

lemma tracks_all_spawned:
  assumes "tracks prog s" and "gos (main s) = []"
  shows "length (threads s) = length (gos prog)"
  using tracksD(1,2) [OF assms(1)] assms(2) by simp

lemma processEventLog_hd:
  "hd (snd (processEventLog conv api state ticks)) = ApiOpen (Name api) (RecordNumber state)"
proof -
  obtain ex acts where run: "processEventLog conv api state ticks = (ex, acts)" by fastforce
  from run have "hd acts = ApiOpen (Name api) (RecordNumber state)"
    by (cases rule: processEventLog_cases) simp_all
  with run show ?thesis by simp
qed

subsection \<open>The \<^verbatim>\<open>Shutdown\<close> call\<close>

lemma no_shutdown_count: "no_shutdown h \<Longrightarrow> shutdowns h = 0"
  unfolding no_shutdown_def shutdowns_def by (simp add: filter_empty_conv)

lemma shutdowns_snoc:
  "shutdowns (h @ [(who, a)]) = shutdowns h + (if a = CheckpointShutdown then 1 else 0)"
  by (simp add: shutdowns_def)

lemma no_shutdown_mid: "no_shutdown (pre @ (who, CheckpointShutdown) # post) \<Longrightarrow> False"
  unfolding no_shutdown_def by simp

lemma inv_returned:
  assumes "inv s"
    and "main s = [] \<or> \<not> no_shutdown (history s)"
  shows "returned s"
  using assms(1)
proof (cases rule: inv_phase)
  case spawning
  then obtain pending where "main_ok pending (main s)" "no_shutdown (history s)"
    by (rule spawningE)
  with assms(2) show ?thesis by auto
next
  case joined
  with assms(2) show ?thesis by (auto simp: joined_def)
next
  case returned
  then show ?thesis .
qed

lemma inv_shutdowns:
  assumes "inv s"
  shows "shutdowns (history s) \<le> 1"
  using assms
proof (cases rule: inv_phase)
  case spawning
  then have "no_shutdown (history s)" unfolding spawning_def by blast
  then show ?thesis by (simp add: no_shutdown_count)
next
  case joined
  then show ?thesis by (simp add: joined_def no_shutdown_count)
next
  case returned
  then obtain h where "history s = h @ [(Coordinator, CheckpointShutdown)]" "no_shutdown h"
    unfolding returned_def by blast
  then show ?thesis by (simp add: shutdowns_snoc no_shutdown_count)
qed

lemma returned_history:
  assumes "returned s" and "history s = pre @ (who, CheckpointShutdown) # post"
  shows "who = Coordinator \<and> post = [] \<and> no_shutdown pre"
proof -
  from assms(1) obtain h where h: "history s = h @ [(Coordinator, CheckpointShutdown)]"
    "no_shutdown h" unfolding returned_def by blast
  with assms(2) have "h @ [(Coordinator, CheckpointShutdown)] = pre @ (who, CheckpointShutdown) # post"
    by simp
  from append_eq_mid [OF this] show ?thesis
  proof
    assume "\<exists>q. h = pre @ (who, CheckpointShutdown) # q \<and>
                post = q @ [(Coordinator, CheckpointShutdown)]"
    with h(2) no_shutdown_mid show ?thesis by blast
  next
    assume "\<exists>p. pre = h @ p \<and>
      [(Coordinator, CheckpointShutdown)] = p @ (who, CheckpointShutdown) # post"
    then obtain p where p: "pre = h @ p"
      "[(Coordinator, CheckpointShutdown)] = p @ (who, CheckpointShutdown) # post" by blast
    from p(2) have "p = []" by (cases p) auto
    with p h(2) show ?thesis by simp
  qed
qed

subsection \<open>The example runs of the system\<close>

lemma example_beater_fields:
  "checkpoint example_beater = Some Map.empty" "eventLogs example_beater = [App, Sys]"
  by (simp_all add: example_beater_def example_settings_def Setup_def New_def Let_def)

lemma example_run: "Run RecordID example_script example_beater = Inr example_program"
  by (simp add: Run_def example_beater_fields example_program_def States_def Let_def)

lemma failing_beater_fields:
  "checkpoint failing_beater = Some Map.empty" "eventLogs failing_beater = [Security, App]"
  by (simp_all add: failing_beater_def example_settings_def Setup_def New_def Let_def)

lemma failing_run: "Run RecordID example_script failing_beater = Inr failing_program"
  by (simp add: Run_def failing_beater_fields failing_program_def States_def Let_def)

section \<open>The claims\<close>

text \<open>
  Claim C1: in every execution of the polling worker, a \<^verbatim>\<open>Persist\<close> call is made only
  right after the worker has read a non-empty batch and \<^verbatim>\<open>PublishEvents\<close> for that batch
  has returned success, and it carries the position and the timestamp of the last record of
  that batch; so after any part of the execution the checkpoint of the source is either
  what it was or the last record of a batch whose publish returned success.
\<close>

theorem persist_only_after_publish_success:
  assumes "processEventLog conv api state ticks = (ex, acts)"
  shows "(\<forall>pre n r ts post. acts = pre @ Persist n r ts # post \<longrightarrow>
           (\<exists>records before.
              records \<noteq> [] \<and> n = Name api \<and> r = RecordID (last records) \<and>
              ts = UTC (SystemTime (TimeCreated (last records))) \<and>
              pre = before @
                [ApiRead (Name api) (Inr records),
                 Log (DebugReadReturned (Name api) (length records)),
                 PublishEvents (map conv records) True,
                 PublishedAdd ''total'' (of_nat (length records)),
                 PublishedAdd (Name api) (of_nat (length records)),
                 Log (InfoPublished (Name api) (of_nat (length records)))]))
       \<and> (\<forall>performed rest cp. acts = performed @ rest \<longrightarrow>
           checkpoint_after performed cp (Name api) = cp (Name api) \<or>
           (\<exists>records. records \<noteq> [] \<and>
              PublishEvents (map conv records) True \<in> set performed \<and>
              checkpoint_after performed cp (Name api) =
                Some \<lparr>StateName = Name api, RecordNumber = RecordID (last records),
                      Timestamp = UTC (SystemTime (TimeCreated (last records)))\<rparr>))"
proof (intro conjI allI impI)
  fix pre n r ts post
  assume "acts = pre @ Persist n r ts # post"
  with acked_processEventLog [OF assms]
  show "\<exists>records before.
              records \<noteq> [] \<and> n = Name api \<and> r = RecordID (last records) \<and>
              ts = UTC (SystemTime (TimeCreated (last records))) \<and>
              pre = before @
                [ApiRead (Name api) (Inr records),
                 Log (DebugReadReturned (Name api) (length records)),
                 PublishEvents (map conv records) True,
                 PublishedAdd ''total'' (of_nat (length records)),
                 PublishedAdd (Name api) (of_nat (length records)),
                 Log (InfoPublished (Name api) (of_nat (length records)))]"
    unfolding acked_def published_block_def by blast
next
  fix performed rest :: "('a, 'b) action list" and cp :: Checkpoint
  assume split: "acts = performed @ rest"
  from checkpoint_after_cases [of performed cp "Name api"]
  show "checkpoint_after performed cp (Name api) = cp (Name api) \<or>
           (\<exists>records. records \<noteq> [] \<and>
              PublishEvents (map conv records) True \<in> set performed \<and>
              checkpoint_after performed cp (Name api) =
                Some \<lparr>StateName = Name api, RecordNumber = RecordID (last records),
                      Timestamp = UTC (SystemTime (TimeCreated (last records)))\<rparr>)"
  proof
    assume "checkpoint_after performed cp (Name api) = cp (Name api)"
    then show ?thesis by simp
  next
    assume "\<exists>p1 r ts p2. performed = p1 @ Persist (Name api) r ts # p2 \<and>
      checkpoint_after performed cp (Name api) =
        Some \<lparr>StateName = Name api, RecordNumber = r, Timestamp = ts\<rparr>"
    then obtain p1 r ts p2 where p: "performed = p1 @ Persist (Name api) r ts # p2"
      and c: "checkpoint_after performed cp (Name api) =
        Some \<lparr>StateName = Name api, RecordNumber = r, Timestamp = ts\<rparr>" by blast
    from split p have "acts = p1 @ Persist (Name api) r ts # (p2 @ rest)" by simp
    with acked_processEventLog [OF assms] obtain records before where
      "records \<noteq> []" "r = RecordID (last records)"
      "ts = UTC (SystemTime (TimeCreated (last records)))"
      "p1 = before @ published_block conv (Name api) records"
      unfolding acked_def by blast
    with p c show ?thesis
      by (intro disjI2 exI [of _ records]) (simp add: published_block_def)
  qed
qed

theorem persist_only_after_publish_success_witness:
  "\<exists>records before.
     records \<noteq> [] \<and> ''App'' = Name App \<and> (2 :: uint64) = RecordID (last records) \<and>
     \<lparr>instant = 2, location = ''UTC''\<rparr> = UTC (SystemTime (TimeCreated (last records))) \<and>
     [ApiOpen ''App'' 0, Log (DebugOpened ''App''),
      ApiRead ''App'' (Inr [record_no 1, record_no 2]),
      Log (DebugReadReturned ''App'' 2),
      PublishEvents [1, 2] True,
      PublishedAdd ''total'' 2, PublishedAdd ''App'' 2,
      Log (InfoPublished ''App'' 2)] =
       before @
       [ApiRead (Name App) (Inr records),
        Log (DebugReadReturned (Name App) (length records)),
        PublishEvents (map RecordID records) True,
        PublishedAdd ''total'' (of_nat (length records)),
        PublishedAdd (Name App) (of_nat (length records)),
        Log (InfoPublished (Name App) (of_nat (length records)))]"
proof -
  have run: "processEventLog RecordID App zero_EventLogState
               [yields [record_no 1, record_no 2] True] =
             (StillRunning,
              [ApiOpen ''App'' 0, Log (DebugOpened ''App''),
               ApiRead ''App'' (Inr [record_no 1, record_no 2]),
               Log (DebugReadReturned ''App'' 2),
               PublishEvents [1, 2] True,
               PublishedAdd ''total'' 2, PublishedAdd ''App'' 2,
               Log (InfoPublished ''App'' 2)] @
              Persist ''App'' 2 \<lparr>instant = 2, location = ''UTC''\<rparr> # [])"
    by (simp add: scenario)
  from persist_only_after_publish_success [OF run, THEN conjunct1, rule_format, OF refl]
  show ?thesis .
qed

text \<open>
  Claim C2: when \<^verbatim>\<open>PublishEvents\<close> returns failure, the worker leaves the loop at once
  (whatever the environment would have answered later), makes no \<^verbatim>\<open>Persist\<close> call for
  that batch, and the checkpoint store is what it was before that pass of the loop.
\<close>

theorem publish_failure_exits_without_persist:
  assumes "Open api (RecordNumber state) = None"
    and "eventLoop conv (Name api) earlier = (StillRunning, acts)"
    and "\<not> done_closed t" and "read_result t = Inr records" and "records \<noteq> []"
    and "\<not> publish_ok t"
  shows "processEventLog conv api state (earlier @ t # later) =
           (LoopReturned,
            [ApiOpen (Name api) (RecordNumber state), Log (DebugOpened (Name api))] @ acts @
            [ApiRead (Name api) (Inr records),
             Log (DebugReadReturned (Name api) (length records)),
             PublishEvents (map conv records) False] @
            deferred api)
       \<and> persists
            ([ApiRead (Name api) (Inr records),
              Log (DebugReadReturned (Name api) (length records)),
              PublishEvents (map conv records) False] @
             (deferred api :: ('a, 'b) action list)) = []
       \<and> checkpoint_after (snd (processEventLog conv api state (earlier @ t # later))) cp =
           checkpoint_after
             ([ApiOpen (Name api) (RecordNumber state), Log (DebugOpened (Name api))] @ acts) cp"
proof -
  have it: "iteration conv (Name api) t =
     (Return,
      [ApiRead (Name api) (Inr records), Log (DebugReadReturned (Name api) (length records)),
       PublishEvents (map conv records) False])"
    using assms(3-6) by (rule iteration_publish_failed)
  have loop: "eventLoop conv (Name api) (earlier @ t # later) =
     (LoopReturned, acts @
      [ApiRead (Name api) (Inr records), Log (DebugReadReturned (Name api) (length records)),
       PublishEvents (map conv records) False])"
    using eventLoop_append [OF assms(2)] it by simp
  have run: "processEventLog conv api state (earlier @ t # later) =
           (LoopReturned,
            [ApiOpen (Name api) (RecordNumber state), Log (DebugOpened (Name api))] @ acts @
            [ApiRead (Name api) (Inr records),
             Log (DebugReadReturned (Name api) (length records)),
             PublishEvents (map conv records) False] @
            deferred api)"
    using processEventLog_opened [OF assms(1) loop] by simp
  have none: "persists
            ([ApiRead (Name api) (Inr records),
              Log (DebugReadReturned (Name api) (length records)),
              PublishEvents (map conv records) False] @
             (deferred api :: ('a, 'b) action list)) = []"
    by (simp add: deferred_reads)
  have same: "checkpoint_after (snd (processEventLog conv api state (earlier @ t # later))) cp =
           checkpoint_after
             ([ApiOpen (Name api) (RecordNumber state), Log (DebugOpened (Name api))] @ acts) cp"
    unfolding run snd_conv
    by (simp add: checkpoint_after_append checkpoint_after_deferred)
  from run none same show ?thesis by blast
qed

theorem publish_failure_exits_without_persist_witness:
  "fst (processEventLog RecordID App zero_EventLogState
          [yields [record_no 1, record_no 2] True, yields [record_no 3] True,
           yields [record_no 4, record_no 5] False]) = LoopReturned
   \<and> checkpoint_after
        (snd (processEventLog RecordID App zero_EventLogState
          [yields [record_no 1, record_no 2] True, yields [record_no 3] True,
           yields [record_no 4, record_no 5] False])) Map.empty ''App'' =
      Some \<lparr>StateName = ''App'', RecordNumber = 3,
            Timestamp = \<lparr>instant = 3, location = ''UTC''\<rparr>\<rparr>"
proof -
  have opened: "Open App (RecordNumber zero_EventLogState) = None"
    by (simp add: App_def)
  have earlier: "eventLoop RecordID (Name App)
      [yields [record_no 1, record_no 2] True, yields [record_no 3] True] =
     (StillRunning,
      [ApiRead ''App'' (Inr [record_no 1, record_no 2]), Log (DebugReadReturned ''App'' 2),
       PublishEvents [1, 2] True, PublishedAdd ''total'' 2, PublishedAdd ''App'' 2,
       Log (InfoPublished ''App'' 2), Persist ''App'' 2 \<lparr>instant = 2, location = ''UTC''\<rparr>,
       ApiRead ''App'' (Inr [record_no 3]), Log (DebugReadReturned ''App'' 1),
       PublishEvents [3] True, PublishedAdd ''total'' 1, PublishedAdd ''App'' 1,
       Log (InfoPublished ''App'' 1), Persist ''App'' 3 \<lparr>instant = 3, location = ''UTC''\<rparr>])"
    by (simp add: scenario)
  have t: "\<not> done_closed (yields [record_no 4, record_no 5] False)"
    "read_result (yields [record_no 4, record_no 5] False) = Inr [record_no 4, record_no 5]"
    "[record_no 4, record_no 5] \<noteq> []" "\<not> publish_ok (yields [record_no 4, record_no 5] False)"
    by (simp_all add: yields_def)
  from publish_failure_exits_without_persist [OF opened earlier t, of "[]" Map.empty]
  show ?thesis by (simp add: PersistState_def checkpoint_after_deferred)
qed

text \<open>
  Claim C3: for a non-empty batch whose publish succeeds, the pass of the loop makes exactly
  one \<^verbatim>\<open>Persist\<close> call, with the record identifier and the timestamp of the last record
  of the batch, and that is the new checkpoint of the source.
\<close>

theorem publish_success_persists_last_record:
  assumes "eventLoop conv name earlier = (StillRunning, acts)"
    and "\<not> done_closed t" and "read_result t = Inr records" and "records \<noteq> []"
    and "publish_ok t"
  shows "eventLoop conv name (earlier @ t # later) =
           (case eventLoop conv name later of
              (ex, rest) \<Rightarrow>
                (ex, acts @
                     [ApiRead name (Inr records),
                      Log (DebugReadReturned name (length records)),
                      PublishEvents (map conv records) True,
                      PublishedAdd ''total'' (of_nat (length records)),
                      PublishedAdd name (of_nat (length records)),
                      Log (InfoPublished name (of_nat (length records))),
                      Persist name (RecordID (last records))
                        (UTC (SystemTime (TimeCreated (last records))))] @ rest))
       \<and> persists (snd (iteration conv name t)) =
           [(name, RecordID (last records), UTC (SystemTime (TimeCreated (last records))))]
       \<and> checkpoint_after (acts @ snd (iteration conv name t)) cp name =
           Some \<lparr>StateName = name, RecordNumber = RecordID (last records),
                 Timestamp = UTC (SystemTime (TimeCreated (last records)))\<rparr>
       \<and> instant (UTC (SystemTime (TimeCreated (last records)))) =
           instant (SystemTime (TimeCreated (last records)))"
proof -
  have it: "iteration conv name t =
     (Continue,
      [ApiRead name (Inr records), Log (DebugReadReturned name (length records)),
       PublishEvents (map conv records) True,
       PublishedAdd ''total'' (of_nat (length records)),
       PublishedAdd name (of_nat (length records)),
       Log (InfoPublished name (of_nat (length records))),
       Persist name (RecordID (last records)) (UTC (SystemTime (TimeCreated (last records))))])"
    using assms(2-5) by (rule iteration_published)
  have 1: "eventLoop conv name (earlier @ t # later) =
           (case eventLoop conv name later of
              (ex, rest) \<Rightarrow>
                (ex, acts @
                     [ApiRead name (Inr records),
                      Log (DebugReadReturned name (length records)),
                      PublishEvents (map conv records) True,
                      PublishedAdd ''total'' (of_nat (length records)),
                      PublishedAdd name (of_nat (length records)),
                      Log (InfoPublished name (of_nat (length records))),
                      Persist name (RecordID (last records))
                        (UTC (SystemTime (TimeCreated (last records))))] @ rest))"
    using eventLoop_append [OF assms(1)] it by (simp split: prod.splits)
  have 2: "persists (snd (iteration conv name t)) =
           [(name, RecordID (last records), UTC (SystemTime (TimeCreated (last records))))]"
    unfolding it by simp
  have 3: "checkpoint_after (acts @ snd (iteration conv name t)) cp name =
           Some \<lparr>StateName = name, RecordNumber = RecordID (last records),
                 Timestamp = UTC (SystemTime (TimeCreated (last records)))\<rparr>"
    unfolding it by (simp add: checkpoint_after_append PersistState_def)
  have 4: "instant (UTC (SystemTime (TimeCreated (last records)))) =
           instant (SystemTime (TimeCreated (last records)))"
    by (simp add: UTC_def)
  from 1 2 3 4 show ?thesis by blast
qed

theorem publish_success_persists_last_record_witness:
  "persists (snd (iteration RecordID ''App'' (yields [record_no 2, record_no 3] True))) =
     [(''App'', 3, \<lparr>instant = 3, location = ''UTC''\<rparr>)]
   \<and> checkpoint_after
       (snd (eventLoop RecordID ''App'' [yields [record_no 1] True]) @
        snd (iteration RecordID ''App'' (yields [record_no 2, record_no 3] True)))
       Map.empty ''App'' =
     Some \<lparr>StateName = ''App'', RecordNumber = 3,
           Timestamp = \<lparr>instant = 3, location = ''UTC''\<rparr>\<rparr>"
proof -
  have earlier: "eventLoop RecordID ''App'' [yields [record_no 1] True] =
     (StillRunning, snd (eventLoop RecordID ''App'' [yields [record_no 1] True]))"
    by (simp add: scenario)
  have t: "\<not> done_closed (yields [record_no 2, record_no 3] True)"
    "read_result (yields [record_no 2, record_no 3] True) = Inr [record_no 2, record_no 3]"
    "[record_no 2, record_no 3] \<noteq> []" "publish_ok (yields [record_no 2, record_no 3] True)"
    by (simp_all add: yields_def)
  from publish_success_persists_last_record [OF earlier t, of "[]" Map.empty]
  show ?thesis by (simp add: record_no_def UTC_def)
qed

text \<open>
  Claim C4: the persisted positions are, in order, a subsequence of the positions of the
  records the source has yielded, and the events are published in the order the source
  yields the records. So when the positions yielded are non-decreasing the persisted
  positions are non-decreasing (the checkpoint never regresses), and when they are
  increasing the persisted positions are increasing.
\<close>

theorem checkpoint_positions_monotone:
  assumes "processEventLog conv api state ticks = (ex, acts)"
  shows "subseq (persisted_positions acts) (map RecordID (records_read acts))
       \<and> events_published acts = map conv (records_read acts)
       \<and> (sorted (map RecordID (records_read acts)) \<longrightarrow> sorted (persisted_positions acts))
       \<and> (sorted_wrt (<) (map RecordID (records_read acts)) \<longrightarrow>
            sorted_wrt (<) (persisted_positions acts))"
proof -
  have "subseq (persisted_positions acts) (map RecordID (records_read acts))
       \<and> events_published acts = map conv (records_read acts)"
    using assms
  proof (cases rule: processEventLog_cases)
    case (open_failed err)
    then show ?thesis by simp
  next
    case (running body)
    with eventLoop_positions [OF running(2)] eventLoop_events [OF running(2)]
    show ?thesis by simp
  next
    case (left body)
    with eventLoop_positions [OF left(2)] eventLoop_events [OF left(2)]
    show ?thesis by (simp add: deferred_reads)
  qed
  moreover from this have "sorted (map RecordID (records_read acts)) \<longrightarrow> sorted (persisted_positions acts)"
    using sorted_wrt_subseq [of "persisted_positions acts" "map RecordID (records_read acts)" "(\<le>)"] by simp
  moreover from calculation(1) have "sorted_wrt (<) (map RecordID (records_read acts)) \<longrightarrow>
            sorted_wrt (<) (persisted_positions acts)"
    using sorted_wrt_subseq [of "persisted_positions acts" "map RecordID (records_read acts)" "(<)"] by simp
  ultimately show ?thesis by simp
qed

theorem checkpoint_positions_monotone_witness:
  "persisted_positions
     (snd (processEventLog RecordID App zero_EventLogState
        [yields [record_no 1, record_no 2] True, yields [record_no 3] True])) = [2, 3]
   \<and> sorted (persisted_positions
     (snd (processEventLog RecordID App zero_EventLogState
        [yields [record_no 1, record_no 2] True, yields [record_no 3] True])))"
proof -
  have run: "processEventLog RecordID App zero_EventLogState
        [yields [record_no 1, record_no 2] True, yields [record_no 3] True] =
     (StillRunning, snd (processEventLog RecordID App zero_EventLogState
        [yields [record_no 1, record_no 2] True, yields [record_no 3] True]))"
    by (simp add: scenario)
  have reads: "sorted (map RecordID (records_read (snd (processEventLog RecordID App zero_EventLogState
        [yields [record_no 1, record_no 2] True, yields [record_no 3] True]))))"
    by (simp add: scenario)
  have pos: "persisted_positions
     (snd (processEventLog RecordID App zero_EventLogState
        [yields [record_no 1, record_no 2] True, yields [record_no 3] True])) = [2, 3]"
    by (simp add: scenario)
  from checkpoint_positions_monotone [OF run] reads pos show ?thesis by blast
qed

text \<open>
  Claim C5, as amended: the shutdown signal is one-shot but \<^verbatim>\<open>Stop\<close> is not idempotent.
  In the state \<^verbatim>\<open>Setup\<close> leaves (whether or not it returns an error) the done channel is
  open and the publisher client has not been closed; the first \<^verbatim>\<open>Stop\<close> logs, closes the
  channel, which is the transition from running to stopping, calls \<^verbatim>\<open>Close\<close> on the
  publisher client once, and does not fault; a second \<^verbatim>\<open>Stop\<close> panics on the close of the
  closed channel, and so does every succession of two or more.
\<close>

theorem stop_transitions_once_then_panics:
  assumes "Setup newCheckpoint listen new eb0 = (err, eb)"
  shows "done_chan eb = Some ChanOpen \<and> client eb = Some 0
       \<and> Stop eb =
           Inr (eb\<lparr>logged := logged eb @ [InfoStopping], done_chan := Some ChanClosed,
                   client := Some (Suc 0)\<rparr>)
       \<and> Stop (eb\<lparr>logged := logged eb @ [InfoStopping], done_chan := Some ChanClosed,
                  client := Some (Suc 0)\<rparr>) = Inl CloseOfClosedChannel
       \<and> (\<forall>n. Stop_times (Suc (Suc n)) eb = Inl CloseOfClosedChannel)"
proof -
  from Setup_done_chan [OF assms] have
    d: "done_chan eb = Some ChanOpen" and c: "client eb = Some 0" by blast+
  let ?eb' = "eb\<lparr>logged := logged eb @ [InfoStopping], done_chan := Some ChanClosed,
                    client := Some (Suc 0)\<rparr>"
  have 1: "Stop eb = Inr ?eb'" using d c by (rule Stop_open)
  have 2: "Stop ?eb' = Inl CloseOfClosedChannel" by (rule Stop_closed) simp
  have 3: "Stop_times (Suc (Suc n)) eb = Inl CloseOfClosedChannel" for n
    by (simp add: 1 2)
  from d c 1 2 3 show ?thesis by simp
qed

theorem stop_transitions_once_then_panics_witness:
  "done_chan example_beater = Some ChanOpen \<and> client example_beater = Some 0
   \<and> (\<exists>eb'. Stop example_beater = Inr eb' \<and> done_chan eb' = Some ChanClosed \<and>
            client eb' = Some 1 \<and> Stop eb' = Inl CloseOfClosedChannel)
   \<and> Stop_times 3 example_beater = Inl CloseOfClosedChannel"
proof -
  have s: "Setup (\<lambda>file maxUpdates interval. Inr Map.empty) (\<lambda>address. None) Inr
            (New example_settings) = (None, example_beater)"
    by (simp add: example_beater_def example_settings_def Setup_def New_def Let_def)
  have "Stop_times 3 example_beater = Stop_times (Suc (Suc (Suc 0))) example_beater"
    by (simp add: numeral_3_eq_3)
  with stop_transitions_once_then_panics [OF s] show ?thesis by simp
qed

text \<open>
  Claim C5 as stated (\<^verbatim>\<open>Stop\<close> may be invoked any number of times and never faults)
  fails: after \<^verbatim>\<open>Setup\<close>, two invocations in succession end in the panic of closing a
  closed channel.
\<close>

theorem stop_twice_panics_counterexample:
  "Stop_times 2 example_beater = Inl CloseOfClosedChannel"
proof -
  have "Stop_times 2 example_beater = Stop_times (Suc (Suc 0)) example_beater"
    by (simp add: numeral_2_eq_2)
  also have "\<dots> = Inl CloseOfClosedChannel"
    by (simp add: example_beater_def example_settings_def Setup_def New_def Stop_def
        close_chan_def Let_def App_def Sys_def)
  finally show ?thesis .
qed

text \<open>
  Claim C6: in every run of the coordinator, under every schedule of the goroutines,
  nothing panics and the \<^verbatim>\<open>Shutdown\<close> of the checkpoint store is called at most once; it is
  called exactly once when \<^verbatim>\<open>Run\<close> has returned. When it is called, it is the coordinator
  that calls it, one worker has been started for every event log, every worker has finished,
  each has performed all the actions of its \<^verbatim>\<open>processEventLog\<close> before the call, and nothing
  is performed after it. And once every worker has finished, the coordinator does reach the
  call.
\<close>

theorem shutdown_once_after_all_workers:
  assumes "Run conv script eb = Inr prog" and "checkpoint eb = Some cp"
    and "s = exec schedule (start prog)"
  shows "fault s = None
       \<and> shutdowns (history s) \<le> 1
       \<and> (main s = [] \<longrightarrow> shutdowns (history s) = 1)
       \<and> (\<forall>pre who post. history s = pre @ (who, CheckpointShutdown) # post \<longrightarrow>
            who = Coordinator \<and> post = [] \<and>
            length (threads s) = length (eventLogs eb) \<and>
            (\<forall>t \<in> set (threads s). finished t) \<and>
            (\<forall>j < length (eventLogs eb).
               worker_history j pre =
                 snd (processEventLog conv (eventLogs eb ! j)
                        (map_index (States cp) (Name (eventLogs eb ! j))) (script j))))
       \<and> (length (threads s) = length (eventLogs eb) \<and> (\<forall>t \<in> set (threads s). finished t) \<longrightarrow>
            main (exec (replicate (length (main s)) Coordinator) s) = [])"
proof -
  have i: "inv s" unfolding assms(3)
    by (intro inv_exec inv_start Run_main_ok [OF assms(1)])
  have tr: "tracks prog s" unfolding assms(3)
    by (intro tracks_exec tracks_start inv_start Run_main_ok [OF assms(1)])
  note g = Run_gos [OF assms(1,2)]
  from i have 1: "fault s = None" unfolding inv_def by blast
  from i have 2: "shutdowns (history s) \<le> 1" by (rule inv_shutdowns)
  have 3: "main s = [] \<longrightarrow> shutdowns (history s) = 1"
  proof
    assume "main s = []"
    with i have "returned s" by (intro inv_returned) simp_all
    then obtain h where "history s = h @ [(Coordinator, CheckpointShutdown)]" "no_shutdown h"
      unfolding returned_def by blast
    then show "shutdowns (history s) = 1" by (simp add: shutdowns_snoc no_shutdown_count)
  qed
  have 4: "\<forall>pre who post. history s = pre @ (who, CheckpointShutdown) # post \<longrightarrow>
            who = Coordinator \<and> post = [] \<and>
            length (threads s) = length (eventLogs eb) \<and>
            (\<forall>t \<in> set (threads s). finished t) \<and>
            (\<forall>j < length (eventLogs eb).
               worker_history j pre =
                 snd (processEventLog conv (eventLogs eb ! j)
                        (map_index (States cp) (Name (eventLogs eb ! j))) (script j)))"
  proof (intro allI impI)
    fix pre who post
    assume h: "history s = pre @ (who, CheckpointShutdown) # post"
    then have "\<not> no_shutdown (history s)" using no_shutdown_mid by metis
    with i have r: "returned s" by (intro inv_returned) simp_all
    from returned_history [OF r h] have w: "who = Coordinator" "post = []" by simp_all
    from r have fin: "\<forall>t \<in> set (threads s). finished t" and m: "main s = []"
      unfolding returned_def by blast+
    from tracks_all_spawned [OF tr] m g(1) have n: "length (threads s) = length (eventLogs eb)"
      by simp
    have "worker_history j pre =
                 snd (processEventLog conv (eventLogs eb ! j)
                        (map_index (States cp) (Name (eventLogs eb ! j))) (script j))"
      if j: "j < length (eventLogs eb)" for j
    proof -
      from j n have jt: "j < length (threads s)" by simp
      with fin have "snd (threads s ! j) = []" by (simp add: finished_def)
      with tracksD(4) [OF tr jt] have "worker_history j (history s) = snd (gos prog ! j)" by simp
      moreover from h w have "worker_history j (history s) = worker_history j pre"
        by (simp add: worker_history_snoc)
      ultimately show ?thesis using g(2) [OF j] by simp
    qed
    with w n fin show "who = Coordinator \<and> post = [] \<and>
            length (threads s) = length (eventLogs eb) \<and>
            (\<forall>t \<in> set (threads s). finished t) \<and>
            (\<forall>j < length (eventLogs eb).
               worker_history j pre =
                 snd (processEventLog conv (eventLogs eb ! j)
                        (map_index (States cp) (Name (eventLogs eb ! j))) (script j)))"
      by blast
  qed
  have 5: "length (threads s) = length (eventLogs eb) \<and> (\<forall>t \<in> set (threads s). finished t) \<longrightarrow>
            main (exec (replicate (length (main s)) Coordinator) s) = []"
  proof
    assume a: "length (threads s) = length (eventLogs eb) \<and> (\<forall>t \<in> set (threads s). finished t)"
    with tracksD(2) [OF tr] g(1) have "gos (main s) = []" by simp
    with a i show "main (exec (replicate (length (main s)) Coordinator) s) = []"
      by (intro joins) simp_all
  qed
  from 1 2 3 4 5 show ?thesis by blast
qed

theorem shutdown_once_after_all_workers_witness:
  "main (exec example_schedule (start example_program)) = []
   \<and> shutdowns (history (exec example_schedule (start example_program))) = 1
   \<and> length (threads (exec example_schedule (start example_program))) = 2
   \<and> worker_history 1 (butlast (history (exec example_schedule (start example_program)))) =
       snd (processEventLog RecordID Sys zero_EventLogState (example_script 1))"
proof -
  let ?s = "exec example_schedule (start example_program)"
  have m: "main ?s = []" by code_simp
  have h: "history ?s = butlast (history ?s) @ (Coordinator, CheckpointShutdown) # []"
    by code_simp
  note t = shutdown_once_after_all_workers [OF example_run example_beater_fields(1) refl,
      of example_schedule]
  from t m have 1: "shutdowns (history ?s) = 1" by blast
  from t h have "length (threads ?s) = length (eventLogs example_beater) \<and>
    (\<forall>j < length (eventLogs example_beater).
       worker_history j (butlast (history ?s)) =
         snd (processEventLog RecordID (eventLogs example_beater ! j)
                (map_index (States Map.empty) (Name (eventLogs example_beater ! j)))
                (example_script j)))"
    by blast
  then have 2: "length (threads ?s) = 2"
    and 3: "worker_history 1 (butlast (history ?s)) =
       snd (processEventLog RecordID Sys zero_EventLogState (example_script 1))"
    by (simp_all add: example_beater_fields map_index_def States_def)
  from m 1 2 3 show ?thesis by blast
qed

text \<open>
  Claim C7: when \<^verbatim>\<open>Open\<close> fails for a source, its worker performs the one
  \<^verbatim>\<open>Open\<close> call, logs the warning and ends with \<^verbatim>\<open>wg.Done()\<close>: no retry, no read, no
  publish, no persist, under every schedule. The worker of any source \<open>j\<close> is not held up
  by it: whatever has been scheduled so far, once the coordinator and then worker \<open>j\<close> are
  scheduled, worker \<open>j\<close> has performed all the actions of \<^verbatim>\<open>processEventLog\<close> on its own
  source, and nothing has panicked.
\<close>

theorem open_failure_leaves_other_workers_running:
  assumes "Run conv script eb = Inr prog" and "checkpoint eb = Some cp"
    and "i < length (eventLogs eb)"
    and "Open (eventLogs eb ! i)
           (RecordNumber (map_index (States cp) (Name (eventLogs eb ! i)))) = Some err"
    and "j < length (eventLogs eb)"
  shows "processEventLog conv (eventLogs eb ! i)
           (map_index (States cp) (Name (eventLogs eb ! i))) (script i) =
         (OpenFailed,
          [ApiOpen (Name (eventLogs eb ! i))
             (RecordNumber (map_index (States cp) (Name (eventLogs eb ! i)))),
           Log (WarnOpenError (Name (eventLogs eb ! i)) err),
           WgDone])
       \<and> prefix (worker_history i (history (exec schedule (start prog))))
           [ApiOpen (Name (eventLogs eb ! i))
              (RecordNumber (map_index (States cp) (Name (eventLogs eb ! i)))),
            Log (WarnOpenError (Name (eventLogs eb ! i)) err),
            WgDone]
       \<and> fault (exec (schedule @ replicate (length prog) Coordinator @
                      replicate (length (snd (gos prog ! j))) (Worker j)) (start prog)) = None
       \<and> worker_history j
           (history (exec (schedule @ replicate (length prog) Coordinator @
                           replicate (length (snd (gos prog ! j))) (Worker j)) (start prog))) =
         snd (processEventLog conv (eventLogs eb ! j)
                (map_index (States cp) (Name (eventLogs eb ! j))) (script j))"
proof -
  note ok = Run_main_ok [OF assms(1)]
  note g = Run_gos [OF assms(1,2)]
  let ?s0 = "exec schedule (start prog)"
  let ?s1 = "exec (replicate (length prog) Coordinator) ?s0"
  let ?s2 = "exec (replicate (length (snd (gos prog ! j))) (Worker j)) ?s1"
  have i0: "inv ?s0" by (intro inv_exec inv_start ok)
  have t0: "tracks prog ?s0" by (intro tracks_exec tracks_start inv_start ok)
  have i1: "inv ?s1" by (intro inv_exec i0)
  have t1: "tracks prog ?s1" by (intro tracks_exec i0 t0)
  have i2: "inv ?s2" by (intro inv_exec i1)
  have t2: "tracks prog ?s2" by (intro tracks_exec i1 t1)
  have 1: "processEventLog conv (eventLogs eb ! i)
           (map_index (States cp) (Name (eventLogs eb ! i))) (script i) =
         (OpenFailed,
          [ApiOpen (Name (eventLogs eb ! i))
             (RecordNumber (map_index (States cp) (Name (eventLogs eb ! i)))),
           Log (WarnOpenError (Name (eventLogs eb ! i)) err),
           WgDone])"
    using assms(4) by (simp add: processEventLog_def)
  have 2: "prefix (worker_history i (history ?s0))
           [ApiOpen (Name (eventLogs eb ! i))
              (RecordNumber (map_index (States cp) (Name (eventLogs eb ! i)))),
            Log (WarnOpenError (Name (eventLogs eb ! i)) err),
            WgDone]"
    using tracks_prefix [OF t0, of i] g(1) g(2) [OF assms(3)] assms(3) 1 by simp
  have "length (main ?s0) \<le> length prog"
  proof -
    have "length (main (exec sch s)) \<le> length (main s)" if "inv s" for sch and s :: "('a, 'b) system"
      using that
    proof (induction sch arbitrary: s)
      case Nil
      then show ?case by simp
    next
      case (Cons who sch)
      have "length (main (step who s)) \<le> length (main s)"
      proof (cases who)
        case Coordinator
        with step_Coordinator_main [OF Cons.prems] show ?thesis by auto
      next
        case (Worker k)
        show ?thesis
        proof (cases "k < length (threads s) \<and> snd (threads s ! k) \<noteq> []")
          case False
          then have "step (Worker k) s = s" by (intro step_Worker_idle) blast
          with Worker show ?thesis by simp
        next
          case True
          then obtain ex a r where "k < length (threads s)" "threads s ! k = (ex, a # r)"
            by (cases "threads s ! k"; cases "snd (threads s ! k)") auto
          from step_Worker [OF Cons.prems this] Worker show ?thesis by simp
        qed
      qed
      with Cons.IH [OF inv_step [OF Cons.prems], of who] show ?case by simp
    qed
    from this [OF inv_start [OF ok], of schedule] show ?thesis by (simp add: start_def)
  qed
  with i0 have "gos (main ?s1) = []" by (intro spawns_all)
  with tracks_all_spawned [OF t1] g(1) assms(5) have j1: "j < length (threads ?s1)" by simp
  have "length (snd (threads ?s1 ! j)) \<le> length (snd (gos prog ! j))"
    using tracksD(4) [OF t1 j1] by (metis length_append le_add2)
  with worker_completes [OF i1 j1] have j2: "j < length (threads ?s2)"
    and e: "snd (threads ?s2 ! j) = []" by simp_all
  from tracksD(4) [OF t2 j2] e g(2) [OF assms(5)]
  have 4: "worker_history j (history ?s2) =
         snd (processEventLog conv (eventLogs eb ! j)
                (map_index (States cp) (Name (eventLogs eb ! j))) (script j))" by simp
  from i2 have 3: "fault ?s2 = None" unfolding inv_def by blast
  from 1 2 3 4 show ?thesis by (simp add: exec_append)
qed

theorem open_failure_leaves_other_workers_running_witness:
  "processEventLog RecordID Security zero_EventLogState (example_script 0) =
     (OpenFailed,
      [ApiOpen ''Security'' 0, Log (WarnOpenError ''Security'' ''access denied''), WgDone])
   \<and> worker_history 1
       (history (exec ([Coordinator, Worker 0] @ replicate (length failing_program) Coordinator @
                       replicate (length (snd (gos failing_program ! 1))) (Worker 1))
                   (start failing_program))) =
     snd (processEventLog RecordID App zero_EventLogState (example_script 1))"
proof -
  have i: "0 < length (eventLogs failing_beater)" and j: "1 < length (eventLogs failing_beater)"
    by (simp_all add: failing_beater_fields)
  have o: "Open (eventLogs failing_beater ! 0)
             (RecordNumber (map_index (States Map.empty) (Name (eventLogs failing_beater ! 0)))) =
           Some ''access denied''"
    by (simp add: failing_beater_fields Security_def)
  from open_failure_leaves_other_workers_running
         [OF failing_run failing_beater_fields(1) i o j, of "[Coordinator, Worker 0]"]
  show ?thesis
    by (simp add: failing_beater_fields map_index_def States_def Security_def
          zero_EventLogState_def)
qed

text \<open>
  Claim C8: when \<^verbatim>\<open>Read\<close> returns an empty batch and no error, the worker sleeps one
  second (\<open>1000000000\<close> nanoseconds) and goes on with the next pass of the loop; it
  publishes nothing and the checkpoint store is unchanged.
\<close>

theorem empty_read_sleeps_and_repolls:
  assumes "eventLoop conv name earlier = (StillRunning, acts)"
    and "\<not> done_closed t" and "read_result t = Inr []"
  shows "eventLoop conv name (earlier @ t # later) =
           (case eventLoop conv name later of
              (ex, rest) \<Rightarrow>
                (ex, acts @
                     [ApiRead name (Inr []), Log (DebugReadReturned name 0),
                      Sleep 1000000000] @ rest))
       \<and> checkpoint_after
           (acts @ [ApiRead name (Inr []), Log (DebugReadReturned name 0), Sleep 1000000000]) cp =
         checkpoint_after acts cp"
proof -
  have it: "iteration conv name t =
     (Continue, [ApiRead name (Inr []), Log (DebugReadReturned name 0), Sleep time_Second])"
    using assms(2,3) by (rule iteration_empty)
  have 1: "eventLoop conv name (earlier @ t # later) =
           (case eventLoop conv name later of
              (ex, rest) \<Rightarrow>
                (ex, acts @
                     [ApiRead name (Inr []), Log (DebugReadReturned name 0),
                      Sleep 1000000000] @ rest))"
    using eventLoop_append [OF assms(1)] it by (simp add: time_Second_def split: prod.splits)
  have 2: "checkpoint_after
           (acts @ [ApiRead name (Inr []), Log (DebugReadReturned name 0), Sleep 1000000000]) cp =
         checkpoint_after acts cp"
    by (simp add: checkpoint_after_append)
  from 1 2 show ?thesis by blast
qed

theorem empty_read_sleeps_and_repolls_witness:
  "eventLoop RecordID ''App'' [yields [record_no 3] True, yields [] True] =
     (StillRunning,
      [ApiRead ''App'' (Inr [record_no 3]), Log (DebugReadReturned ''App'' 1),
       PublishEvents [3] True, PublishedAdd ''total'' 1, PublishedAdd ''App'' 1,
       Log (InfoPublished ''App'' 1), Persist ''App'' 3 \<lparr>instant = 3, location = ''UTC''\<rparr>,
       ApiRead ''App'' (Inr []), Log (DebugReadReturned ''App'' 0), Sleep 1000000000])"
proof -
  have earlier: "eventLoop RecordID ''App'' [yields [record_no 3] True] =
     (StillRunning,
      [ApiRead ''App'' (Inr [record_no 3]), Log (DebugReadReturned ''App'' 1),
       PublishEvents [3] True, PublishedAdd ''total'' 1, PublishedAdd ''App'' 1,
       Log (InfoPublished ''App'' 1), Persist ''App'' 3 \<lparr>instant = 3, location = ''UTC''\<rparr>])"
    by (simp add: scenario)
  have t: "\<not> done_closed (yields [] True)" "read_result (yields [] True) = Inr []"
    by (simp_all add: yields_def)
  from empty_read_sleeps_and_repolls [OF earlier t, of "[]" Map.empty]
  show ?thesis by simp
qed

text \<open>
  Claim C9: when \<^verbatim>\<open>Read\<close> returns an error, the worker logs it and breaks out of the
  loop without publishing or persisting in that pass, then runs the deferred cleanup. And
  however the loop is left once the source has been opened, the actions of the worker end
  with the close of the source, the warning when the close fails, and \<^verbatim>\<open>wg.Done()\<close>; the
  source is not closed before that.
\<close>

theorem read_error_breaks_and_source_is_closed:
  assumes "Open api (RecordNumber state) = None"
  shows "(\<forall>earlier acts t err later.
            eventLoop conv (Name api) earlier = (StillRunning, acts) \<and>
            \<not> done_closed t \<and> read_result t = Inl err \<longrightarrow>
            processEventLog conv api state (earlier @ t # later) =
              (LoopBroke,
               [ApiOpen (Name api) (RecordNumber state), Log (DebugOpened (Name api))] @ acts @
               [ApiRead (Name api) (Inl err), Log (WarnReadError (Name api) err)] @
               deferred api))
       \<and> (\<forall>ticks ex acts.
            processEventLog conv api state ticks = (ex, acts) \<and> ex \<noteq> StillRunning \<longrightarrow>
            (\<exists>body. acts =
               body @
               [Log InfoStopProcessing, ApiClose (Name api)] @
               (case Close api of
                  Some err \<Rightarrow> [Log (WarnCloseError (Name api) err)]
                | None \<Rightarrow> []) @
               [WgDone]
             \<and> (\<forall>a \<in> set body. \<not> is_close a)))"
proof (intro conjI allI impI)
  fix earlier :: "'a tick list" and acts :: "('a, 'b) action list" and t :: "'a tick"
    and err and later :: "'a tick list"
  assume h: "eventLoop conv (Name api) earlier = (StillRunning, acts) \<and>
            \<not> done_closed t \<and> read_result t = Inl err"
  then have it: "iteration conv (Name api) t =
      (Break, [ApiRead (Name api) (Inl err), Log (WarnReadError (Name api) err)])"
    by (simp add: iteration_read_error)
  from h have "eventLoop conv (Name api) earlier = (StillRunning, acts)" by simp
  from eventLoop_append [OF this] it
  have loop: "eventLoop conv (Name api) (earlier @ t # later) =
     (LoopBroke, acts @ [ApiRead (Name api) (Inl err), Log (WarnReadError (Name api) err)])"
    by simp
  from processEventLog_opened [OF assms loop]
  show "processEventLog conv api state (earlier @ t # later) =
              (LoopBroke,
               [ApiOpen (Name api) (RecordNumber state), Log (DebugOpened (Name api))] @ acts @
               [ApiRead (Name api) (Inl err), Log (WarnReadError (Name api) err)] @
               deferred api)" by simp
next
  fix ticks :: "'a tick list" and ex and acts :: "('a, 'b) action list"
  assume h: "processEventLog conv api state ticks = (ex, acts) \<and> ex \<noteq> StillRunning"
  then have run: "processEventLog conv api state ticks = (ex, acts)" by simp
  from run show "\<exists>body. acts =
               body @
               [Log InfoStopProcessing, ApiClose (Name api)] @
               (case Close api of
                  Some err \<Rightarrow> [Log (WarnCloseError (Name api) err)]
                | None \<Rightarrow> []) @
               [WgDone]
             \<and> (\<forall>a \<in> set body. \<not> is_close a)"
  proof (cases rule: processEventLog_cases)
    case (open_failed err)
    with assms show ?thesis by simp
  next
    case (running body)
    with h show ?thesis by simp
  next
    case (left body)
    from eventLoop_no_close [OF left(2)] left(4) show ?thesis
      by (intro exI [of _ "[ApiOpen (Name api) (RecordNumber state), Log (DebugOpened (Name api))] @ body"])
         (simp add: deferred_def)
  qed
qed

theorem read_error_breaks_and_source_is_closed_witness:
  "processEventLog RecordID Sys zero_EventLogState
     [yields [] True, read_fails ''io'', yields [record_no 1] True] =
   (LoopBroke,
    [ApiOpen ''Sys'' 0, Log (DebugOpened ''Sys''),
     ApiRead ''Sys'' (Inr []), Log (DebugReadReturned ''Sys'' 0), Sleep 1000000000,
     ApiRead ''Sys'' (Inl ''io''), Log (WarnReadError ''Sys'' ''io''),
     Log InfoStopProcessing, ApiClose ''Sys'', Log (WarnCloseError ''Sys'' ''close failed''),
     WgDone])"
proof -
  have opened: "Open Sys (RecordNumber zero_EventLogState) = None"
    by (simp add: Sys_def)
  have h: "eventLoop RecordID (Name Sys) [yields [] True] =
      (StillRunning, [ApiRead ''Sys'' (Inr []), Log (DebugReadReturned ''Sys'' 0), Sleep 1000000000])
    \<and> \<not> done_closed (read_fails ''io'') \<and> read_result (read_fails ''io'') = Inl ''io''"
    by (simp add: scenario Sys_def read_fails_def)
  from read_error_breaks_and_source_is_closed [OF opened, THEN conjunct1, rule_format, OF h,
    of "[yields [record_no 1] True]"]
  show ?thesis by (simp add: Sys_def deferred_def zero_EventLogState_def)
qed

text \<open>
  Claim C10: for a source without an entry in the loaded state map, \<^verbatim>\<open>Run\<close> does not
  fail and starts the worker with the zero value of the checkpoint state, whose record
  number is \<open>0\<close>; so, under every schedule, what that worker performs begins with
  \<^verbatim>\<open>Open(0)\<close>, like the worker of any other source.
\<close>

theorem missing_checkpoint_opens_at_zero:
  assumes "checkpoint eb = Some cp" and "j < length (eventLogs eb)"
    and "States cp (Name (eventLogs eb ! j)) = None"
  shows "\<exists>prog. Run conv script eb = Inr prog
       \<and> gos prog ! j =
           processEventLog conv (eventLogs eb ! j) zero_EventLogState (script j)
       \<and> RecordNumber zero_EventLogState = 0
       \<and> hd (snd (gos prog ! j)) = ApiOpen (Name (eventLogs eb ! j)) 0
       \<and> (\<forall>schedule.
            prefix (worker_history j (history (exec schedule (start prog))))
              (snd (processEventLog conv (eventLogs eb ! j) zero_EventLogState (script j))))"
proof -
  from assms(1) obtain prog where run: "Run conv script eb = Inr prog"
    by (simp add: Run_def)
  note g = Run_gos [OF run assms(1)]
  from assms(3) have z: "map_index (States cp) (Name (eventLogs eb ! j)) = zero_EventLogState"
    by (simp add: map_index_def)
  from g(2) [OF assms(2)] z have 1: "gos prog ! j =
           processEventLog conv (eventLogs eb ! j) zero_EventLogState (script j)" by simp
  have 2: "RecordNumber zero_EventLogState = 0" by (simp add: zero_EventLogState_def)
  from 1 2 have 3: "hd (snd (gos prog ! j)) = ApiOpen (Name (eventLogs eb ! j)) 0"
    by (simp add: processEventLog_hd)
  have 4: "prefix (worker_history j (history (exec schedule (start prog))))
           (snd (processEventLog conv (eventLogs eb ! j) zero_EventLogState (script j)))"
    for schedule
  proof -
    have "tracks prog (exec schedule (start prog))"
      by (intro tracks_exec tracks_start inv_start Run_main_ok [OF run])
    from tracks_prefix [OF this, of j] g(1) assms(2) 1 show ?thesis by simp
  qed
  from run 1 2 3 4 show ?thesis by blast
qed

theorem missing_checkpoint_opens_at_zero_witness:
  "\<exists>prog. Run RecordID example_script example_beater = Inr prog
     \<and> hd (snd (gos prog ! 0)) = ApiOpen ''App'' 0"
proof -
  have j: "0 < length (eventLogs example_beater)" by (simp add: example_beater_fields)
  have n: "States Map.empty (Name (eventLogs example_beater ! 0)) = None"
    by (simp add: States_def)
  from missing_checkpoint_opens_at_zero [OF example_beater_fields(1) j n,
      of RecordID example_script]
  show ?thesis by (simp add: example_beater_fields App_def) blast
qed

end
